theory Spec2Isabelle
  imports Main
begin

section \<open>JavaScript values\<close>

text \<open>
  \<^verbatim>\<open>App.tsx\<close> is TypeScript: its type annotations are erased before it runs, and the one
  call of \<^verbatim>\<open>dataToGraph\<close> passes the result of \<^verbatim>\<open>JSON.parse\<close>, which is typed
  \<^verbatim>\<open>any\<close>. The translator is therefore modelled on run-time values: the JSON trees,
  plus \<^verbatim>\<open>undefined\<close>, which a read of an absent property yields.

  \<^item> \<open>JNum n\<close> is the number whose value is the integer \<open>n\<close> (node indices, slots and line
    numbers are integers; fractions are not modelled).
  \<^item> \<open>JStr s\<close> is a string whose code units are the characters of \<open>s\<close> (code units up
    to 255).
  \<^item> \<open>JObj kvs\<close> is a plain object: \<open>kvs\<close> lists its own properties, each name once, in
    the order JavaScript enumerates them. Object literals of the source are written
    in the order of the source.
\<close>

datatype jsval =
    JUndefined
  | JNull
  | JBool bool
  | JNum int
  | JStr string
  | JArr "jsval list"
  | JObj "(string \<times> jsval) list"

text \<open>
  The only exception this code can raise is the \<^verbatim>\<open>TypeError\<close> of reading a property of
  \<^verbatim>\<open>undefined\<close> or \<^verbatim>\<open>null\<close>, or of a conversion to a primitive that fails.
\<close>

datatype error = TypeError

text \<open>
  Two conversions of the language are floating-point algorithms, which this theory
  does not define. They are a parameter of every definition that needs them, and
  every theorem below holds whatever they return:
  \<^item> \<open>toString_unsafe n\<close> is \<^verbatim>\<open>Number::toString\<close> of an integer beyond the safe integers
    (\<open>2^53\<close> and more in magnitude: shortest round-trip digits, and exponent form
    from \<open>10^21\<close>, as in \<^verbatim>\<open>1e+21\<close>);
  \<^item> \<open>less_coerced i v\<close> is the comparison \<^verbatim>\<open>i < v\<close> of a counter with a string, an
    array or an object: \<^verbatim>\<open>ToPrimitive\<close>, which can throw, then \<^verbatim>\<open>StringToNumber\<close>.
\<close>

record runtime =
  toString_unsafe :: "int \<Rightarrow> string"
  less_coerced :: "nat \<Rightarrow> jsval \<Rightarrow> error + bool"

subsection \<open>Numbers and strings as text\<close>

function dec_nat :: "nat \<Rightarrow> string" where
  "dec_nat n =
     (if n < 10 then [''0123456789'' ! n]
      else dec_nat (n div 10) @ [''0123456789'' ! (n mod 10)])"
  by pat_completeness auto
termination
  by (relation "measure id") auto

declare dec_nat.simps [simp del]

text \<open>The decimal numeral of an integer: a sign and the digits.\<close>

definition decimal :: "int \<Rightarrow> string" where
  "decimal n = (if n < 0 then CHR ''-'' # dec_nat (nat (- n)) else dec_nat (nat n))"

text \<open>\<^verbatim>\<open>Number.isSafeInteger\<close>: the integers of magnitude at most \<open>2^53 - 1\<close>.\<close>

definition isSafeInteger :: "int \<Rightarrow> bool" where
  "isSafeInteger n = (\<bar>n\<bar> \<le> 9007199254740991)"

text \<open>
  \<^verbatim>\<open>Number::toString\<close> (radix 10), which template literals and \<^verbatim>\<open>JSON.stringify\<close> apply
  to a number: the decimal numeral for a safe integer, the runtime's text beyond.
\<close>

definition Number_toString :: "runtime \<Rightarrow> int \<Rightarrow> string" where
  "Number_toString rt n = (if isSafeInteger n then decimal n else toString_unsafe rt n)"

definition hex_digit :: "nat \<Rightarrow> char" where
  "hex_digit d = ''0123456789abcdef'' ! d"

text \<open>
  \<^verbatim>\<open>QuoteJSONString\<close>: the double quote (\<open>0x22\<close>) and the backslash (\<open>0x5C\<close>) are escaped,
  control characters have a short or a \<^verbatim>\<open>\u00XX\<close> escape, everything else is copied.
\<close>

definition quote_char :: "char \<Rightarrow> string" where
  "quote_char c =
     (if c = CHR 0x08 then [CHR 0x5C, CHR ''b'']
      else if c = CHR 0x09 then [CHR 0x5C, CHR ''t'']
      else if c = CHR 0x0A then [CHR 0x5C, CHR ''n'']
      else if c = CHR 0x0C then [CHR 0x5C, CHR ''f'']
      else if c = CHR 0x0D then [CHR 0x5C, CHR ''r'']
      else if c = CHR 0x22 then [CHR 0x5C, CHR 0x22]
      else if c = CHR 0x5C then [CHR 0x5C, CHR 0x5C]
      else if (of_char c :: nat) < 32
        then [CHR 0x5C, CHR ''u'', CHR ''0'', CHR ''0'',
              hex_digit (of_char c div 16), hex_digit (of_char c mod 16)]
      else [c])"

definition QuoteJSONString :: "string \<Rightarrow> string" where
  "QuoteJSONString s = [CHR 0x22] @ concat (map quote_char s) @ [CHR 0x22]"

fun join :: "string \<Rightarrow> string list \<Rightarrow> string" where
  "join sep [] = []"
| "join sep [x] = x"
| "join sep (x # y # ys) = x @ sep @ join sep (y # ys)"

text \<open>
  \<^verbatim>\<open>SerializeJSONProperty\<close> without indentation: \<open>None\<close> is \<^verbatim>\<open>undefined\<close>, which an
  array prints as \<^verbatim>\<open>null\<close> and an object leaves out together with its key.
\<close>

fun SerializeJSONProperty :: "runtime \<Rightarrow> jsval \<Rightarrow> string option" where
  "SerializeJSONProperty rt JUndefined = None"
| "SerializeJSONProperty rt JNull = Some ''null''"
| "SerializeJSONProperty rt (JBool b) = Some (if b then ''true'' else ''false'')"
| "SerializeJSONProperty rt (JNum n) = Some (Number_toString rt n)"
| "SerializeJSONProperty rt (JStr s) = Some (QuoteJSONString s)"
| "SerializeJSONProperty rt (JArr xs) =
     Some (''['' @
       join '',''
         (map (\<lambda>x. case SerializeJSONProperty rt x of None \<Rightarrow> ''null'' | Some t \<Rightarrow> t) xs)
       @ '']'')"
| "SerializeJSONProperty rt (JObj kvs) =
     Some (''{'' @
       join '',''
         (concat (map (\<lambda>(k, v). case SerializeJSONProperty rt v of
                                   None \<Rightarrow> []
                                 | Some t \<Rightarrow> [QuoteJSONString k @ '':'' @ t]) kvs))
       @ ''}'')"

text \<open>\<^verbatim>\<open>JSON.stringify(v)\<close> returns a string, or \<^verbatim>\<open>undefined\<close> for \<^verbatim>\<open>undefined\<close>.\<close>

definition JSON_stringify :: "runtime \<Rightarrow> jsval \<Rightarrow> jsval" where
  "JSON_stringify rt v =
     (case SerializeJSONProperty rt v of None \<Rightarrow> JUndefined | Some t \<Rightarrow> JStr t)"

subsection \<open>Reading properties\<close>

text \<open>
  \<^verbatim>\<open>v.k\<close> for the property names the program reads from its input (\<^verbatim>\<open>nodes\<close>,
  \<^verbatim>\<open>edges\<close>, \<^verbatim>\<open>operation\<close>, \<^verbatim>\<open>kind\<close>, \<^verbatim>\<open>data\<close>, \<^verbatim>\<open>length\<close>); none of them is
  inherited from a prototype, and arrays and strings own \<^verbatim>\<open>length\<close>. Reading from
  \<^verbatim>\<open>undefined\<close> or \<^verbatim>\<open>null\<close> throws.
\<close>

fun get_prop :: "jsval \<Rightarrow> string \<Rightarrow> error + jsval" where
  "get_prop JUndefined k = Inl TypeError"
| "get_prop JNull k = Inl TypeError"
| "get_prop (JObj kvs) k = Inr (case map_of kvs k of None \<Rightarrow> JUndefined | Some v \<Rightarrow> v)"
| "get_prop (JArr xs) k = Inr (if k = ''length'' then JNum (int (length xs)) else JUndefined)"
| "get_prop (JStr s) k = Inr (if k = ''length'' then JNum (int (length s)) else JUndefined)"
| "get_prop (JBool b) k = Inr JUndefined"
| "get_prop (JNum n) k = Inr JUndefined"

text \<open>
  \<^verbatim>\<open>v[i]\<close> for a non-negative integer \<open>i\<close>: an element of an array, a one-character
  string of a string, the property named by the decimal numeral of an object;
  \<^verbatim>\<open>undefined\<close> out of range.
\<close>

fun get_index :: "jsval \<Rightarrow> nat \<Rightarrow> error + jsval" where
  "get_index JUndefined i = Inl TypeError"
| "get_index JNull i = Inl TypeError"
| "get_index (JArr xs) i = Inr (if i < length xs then xs ! i else JUndefined)"
| "get_index (JStr s) i = Inr (if i < length s then JStr [s ! i] else JUndefined)"
| "get_index (JObj kvs) i =
     Inr (case map_of kvs (dec_nat i) of None \<Rightarrow> JUndefined | Some v \<Rightarrow> v)"
| "get_index (JBool b) i = Inr JUndefined"
| "get_index (JNum n) i = Inr JUndefined"

text \<open>
  The loop test \<^verbatim>\<open>i < len\<close> for a counter \<open>i\<close>. \<^verbatim>\<open>ToNumber\<close> makes \<^verbatim>\<open>undefined\<close>
  \<^verbatim>\<open>NaN\<close> (the test is false), \<^verbatim>\<open>null\<close> and \<^verbatim>\<open>false\<close> 0 and \<^verbatim>\<open>true\<close> 1. A
  \<^verbatim>\<open>length\<close> that is a string, an array or an object (possible only when the
  container is itself a plain object with a property called \<^verbatim>\<open>length\<close>) is compared
  as the runtime compares it.
\<close>

fun js_less :: "runtime \<Rightarrow> nat \<Rightarrow> jsval \<Rightarrow> error + bool" where
  "js_less rt i (JNum n) = Inr (int i < n)"
| "js_less rt i JUndefined = Inr False"
| "js_less rt i JNull = Inr False"
| "js_less rt i (JBool b) = Inr (b \<and> i = 0)"
| "js_less rt i (JStr s) = less_coerced rt i (JStr s)"
| "js_less rt i (JArr xs) = less_coerced rt i (JArr xs)"
| "js_less rt i (JObj kvs) = less_coerced rt i (JObj kvs)"

section \<open>The graph translator\<close>

text \<open>
  The value \<^verbatim>\<open>dataToGraph\<close> returns, \<^verbatim>\<open>{nodes: nodes, edges: edges}\<close>; both arrays hold
  object literals. The translator's local state is these two arrays and its
  parameter \<^verbatim>\<open>data\<close>, which it only reads; the counters are arguments of the loops.
\<close>

record render_graph =
  nodes :: "jsval list"
  edges :: "jsval list"

record tr_state = render_graph +
  data :: jsval

text \<open>The loop test of the first loop reads \<^verbatim>\<open>data.nodes.length\<close>.\<close>

definition nodes_length :: "jsval \<Rightarrow> error + jsval" where
  "nodes_length d =
     (case get_prop d ''nodes'' of Inl e \<Rightarrow> Inl e | Inr ns \<Rightarrow> get_prop ns ''length'')"

text \<open>\<^verbatim>\<open>const op = data.nodes[i].operation\<close>\<close>

definition node_operation :: "jsval \<Rightarrow> nat \<Rightarrow> error + jsval" where
  "node_operation d i =
     (case get_prop d ''nodes'' of
        Inl e \<Rightarrow> Inl e
      | Inr ns \<Rightarrow>
          (case get_index ns i of
             Inl e \<Rightarrow> Inl e
           | Inr n \<Rightarrow> get_prop n ''operation''))"

text \<open>
  The body of the first loop up to its \<^verbatim>\<open>push\<close>: the object pushed for index \<open>i\<close>.
  \<^verbatim>\<open>switch (op.kind)\<close> compares with \<^verbatim>\<open>===\<close>; the cases \<^verbatim>\<open>'Multiply'\<close>, \<^verbatim>\<open>'Add'\<close>,
  \<^verbatim>\<open>'Relinearize'\<close> and \<^verbatim>\<open>'OutputCiphertext'\<close> have no statement of their own and fall
  through to \<^verbatim>\<open>default\<close>, which reads \<^verbatim>\<open>data.nodes[i].operation\<close> again.
\<close>

definition render_node :: "runtime \<Rightarrow> jsval \<Rightarrow> nat \<Rightarrow> error + jsval" where
  "render_node rt d i =
     (case node_operation d i of
        Inl e \<Rightarrow> Inl e
      | Inr op \<Rightarrow>
          (case get_prop op ''kind'' of
             Inl e \<Rightarrow> Inl e
           | Inr kind \<Rightarrow>
               if kind = JStr ''InputCiphertext'' then
                 (case get_prop op ''data'' of
                    Inl e \<Rightarrow> Inl e
                  | Inr slot \<Rightarrow>
                      Inr (JObj [(''id'', JNum (int i)), (''title'', JSON_stringify rt slot),
                                 (''type'', JStr ''input'')]))
               else
                 (case node_operation d i of
                    Inl e \<Rightarrow> Inl e
                  | Inr op' \<Rightarrow>
                      Inr (JObj [(''id'', JNum (int i)), (''title'', JSON_stringify rt op'),
                                 (''type'', JStr ''empty'')]))))"

text \<open>\<^verbatim>\<open>data.edges[i][j]\<close>\<close>

definition edge_component :: "jsval \<Rightarrow> nat \<Rightarrow> nat \<Rightarrow> error + jsval" where
  "edge_component d i j =
     (case get_prop d ''edges'' of
        Inl e \<Rightarrow> Inl e
      | Inr es \<Rightarrow>
          (case get_index es i of
             Inl e \<Rightarrow> Inl e
           | Inr ed \<Rightarrow> get_index ed j))"

text \<open>
  \<^verbatim>\<open>{source: data.edges[i][0], target: data.edges[i][1], type: data.edges[i][2]}\<close>
\<close>

definition render_edge :: "jsval \<Rightarrow> nat \<Rightarrow> error + jsval" where
  "render_edge d i =
     (case edge_component d i 0 of
        Inl e \<Rightarrow> Inl e
      | Inr src \<Rightarrow>
          (case edge_component d i 1 of
             Inl e \<Rightarrow> Inl e
           | Inr tgt \<Rightarrow>
               (case edge_component d i 2 of
                  Inl e \<Rightarrow> Inl e
                | Inr role \<Rightarrow>
                    Inr (JObj [(''source'', src), (''target'', tgt), (''type'', role)]))))"

subsection \<open>Why the loops end\<close>

text \<open>
  A round of either loop reads a property of the element \<^verbatim>\<open>[i]\<close> of its container and
  throws when there is none. \<open>index_bound v\<close> is an index from which on \<open>v\<close> has no
  element: the length of an array or a string, and for an object a power of ten
  with more digits than any of its property names. So a round succeeds below the
  bound only, whatever the loop test says.
\<close>

definition key_width :: "(string \<times> jsval) list \<Rightarrow> nat" where
  "key_width kvs = foldr (\<lambda>kv w. max (length (fst kv)) w) kvs 0"

fun index_bound :: "jsval \<Rightarrow> nat" where
  "index_bound (JArr xs) = length xs"
| "index_bound (JStr s) = length s"
| "index_bound (JObj kvs) = 10 ^ key_width kvs"
| "index_bound v = 0"

definition nodes_bound :: "jsval \<Rightarrow> nat" where
  "nodes_bound d = (case get_prop d ''nodes'' of Inl e \<Rightarrow> 0 | Inr ns \<Rightarrow> index_bound ns)"

definition edges_bound :: "jsval \<Rightarrow> nat" where
  "edges_bound d = (case get_prop d ''edges'' of Inl e \<Rightarrow> 0 | Inr es \<Rightarrow> index_bound es)"

lemma dec_nat_bound: "n < 10 ^ length (dec_nat n)"
proof (induction n rule: dec_nat.induct)
  case (1 n)
  show ?case
  proof (cases "n < 10")
    case True
    then show ?thesis by (subst dec_nat.simps) simp
  next
    case False
    with 1 have "n div 10 < 10 ^ length (dec_nat (n div 10))" by simp
    then have "n < 10 * 10 ^ length (dec_nat (n div 10))" by linarith
    with False show ?thesis by (subst dec_nat.simps) simp
  qed
qed

lemma key_width_ge: "(k, v) \<in> set kvs \<Longrightarrow> length k \<le> key_width kvs"
  by (induction kvs) (auto simp: key_width_def)

lemma get_index_bound:
  assumes "get_index v i = Inr x" and "x \<noteq> JUndefined"
  shows "i < index_bound v"
proof (cases v)
  case (JObj kvs)
  with assms have "map_of kvs (dec_nat i) = Some x"
    by (auto split: option.splits)
  then have "length (dec_nat i) \<le> key_width kvs"
    by (auto dest: map_of_SomeD key_width_ge)
  then have "(10::nat) ^ length (dec_nat i) \<le> 10 ^ key_width kvs"
    by (intro power_increasing) simp_all
  with dec_nat_bound[of i] have "i < 10 ^ key_width kvs"
    by (rule less_le_trans)
  with JObj show ?thesis by simp
qed (use assms in \<open>auto split: if_splits\<close>)

lemma render_node_bound: "render_node rt d i = Inr n \<Longrightarrow> i < nodes_bound d"
proof -
  assume "render_node rt d i = Inr n"
  then obtain ns nd op where "get_prop d ''nodes'' = Inr ns" "get_index ns i = Inr nd"
    "get_prop nd ''operation'' = Inr op"
    by (auto simp: render_node_def node_operation_def split: sum.splits)
  moreover from this have "nd \<noteq> JUndefined" by auto
  ultimately show ?thesis
    by (simp add: nodes_bound_def get_index_bound)
qed

lemma render_edge_bound: "render_edge d i = Inr ed \<Longrightarrow> i < edges_bound d"
proof -
  assume "render_edge d i = Inr ed"
  then obtain es e src where "get_prop d ''edges'' = Inr es" "get_index es i = Inr e"
    "get_index e 0 = Inr src"
    by (auto simp: render_edge_def edge_component_def split: sum.splits)
  moreover from this have "e \<noteq> JUndefined" by auto
  ultimately show ?thesis
    by (simp add: edges_bound_def get_index_bound)
qed

subsection \<open>The loops and the function\<close>

text \<open>
  \<^verbatim>\<open>for (let i = 0; i < data.nodes.length; ++i) { ... nodes.push(...) }\<close>. A throw leaves
  the loop with the state it was raised in.
\<close>

function nodes_loop :: "runtime \<Rightarrow> nat \<Rightarrow> tr_state \<Rightarrow> tr_state \<times> error option" where
  "nodes_loop rt i s =
     (case nodes_length (data s) of
        Inl e \<Rightarrow> (s, Some e)
      | Inr len \<Rightarrow>
          (case js_less rt i len of
             Inl e \<Rightarrow> (s, Some e)
           | Inr c \<Rightarrow>
               if \<not> c then (s, None)
               else
                 (case render_node rt (data s) i of
                    Inl e \<Rightarrow> (s, Some e)
                  | Inr n \<Rightarrow> nodes_loop rt (Suc i) (s\<lparr>nodes := nodes s @ [n]\<rparr>))))"
  by pat_completeness auto
termination
  by (relation "measure (\<lambda>(rt, i, s). nodes_bound (data s) - i)")
     (auto dest: render_node_bound)

declare nodes_loop.simps [simp del]

text \<open>The loop test of the second loop reads \<^verbatim>\<open>data.edges.length\<close>.\<close>

definition edges_length :: "jsval \<Rightarrow> error + jsval" where
  "edges_length d =
     (case get_prop d ''edges'' of Inl e \<Rightarrow> Inl e | Inr es \<Rightarrow> get_prop es ''length'')"

function edges_loop :: "runtime \<Rightarrow> nat \<Rightarrow> tr_state \<Rightarrow> tr_state \<times> error option" where
  "edges_loop rt i s =
     (case edges_length (data s) of
        Inl e \<Rightarrow> (s, Some e)
      | Inr len \<Rightarrow>
          (case js_less rt i len of
             Inl e \<Rightarrow> (s, Some e)
           | Inr c \<Rightarrow>
               if \<not> c then (s, None)
               else
                 (case render_edge (data s) i of
                    Inl e \<Rightarrow> (s, Some e)
                  | Inr ed \<Rightarrow> edges_loop rt (Suc i) (s\<lparr>edges := edges s @ [ed]\<rparr>))))"
  by pat_completeness auto
termination
  by (relation "measure (\<lambda>(rt, i, s). edges_bound (data s) - i)")
     (auto dest: render_edge_bound)

declare edges_loop.simps [simp del]

text \<open>
  The body of \<^verbatim>\<open>dataToGraph\<close>: both arrays start empty, the first loop runs, then the
  second. The parameter \<^verbatim>\<open>incRelin\<close> is not read.
\<close>

definition dataToGraph_run :: "runtime \<Rightarrow> jsval \<Rightarrow> bool \<Rightarrow> tr_state \<times> error option" where
  "dataToGraph_run rt d incRelin =
     (case nodes_loop rt 0 \<lparr>nodes = [], edges = [], data = d\<rparr> of
        (s, Some e) \<Rightarrow> (s, Some e)
      | (s, None) \<Rightarrow> edges_loop rt 0 s)"

text \<open>
  What the caller sees: the returned object, or the exception; the arrays of a run that
  threw are unreachable.
\<close>

definition dataToGraph :: "runtime \<Rightarrow> jsval \<Rightarrow> bool \<Rightarrow> error + render_graph" where
  "dataToGraph rt d incRelin =
     (case dataToGraph_run rt d incRelin of
        (s, Some e) \<Rightarrow> Inl e
      | (s, None) \<Rightarrow> Inr \<lparr>nodes = nodes s, edges = edges s\<rparr>)"

section \<open>The declared input types\<close>

text \<open>
  The type declarations of \<^verbatim>\<open>App.tsx\<close> (lines 104 to 137) and the run-time value each
  of their inhabitants is: an operation is an object with a \<^verbatim>\<open>kind\<close> tag (and \<^verbatim>\<open>data\<close>
  for an input), a node an object with one property \<^verbatim>\<open>operation\<close>, an edge a
  three-element array, a graph an object with the arrays \<^verbatim>\<open>nodes\<close> and \<^verbatim>\<open>edges\<close>.
\<close>

datatype FheProgramOperation =
    InputCiphertextOp int
  | MultiplyOp
  | AddOp
  | RelinearizeOp
  | OutputCiphertextOp

record FheProgramNode =
  operation :: FheProgramOperation

datatype EdgeType = Left | Right | Unary

type_synonym FheProgramEdge = "int \<times> int \<times> EdgeType"

record FheProgramGraph =
  fhe_nodes :: "FheProgramNode list"
  fhe_edges :: "FheProgramEdge list"

fun js_of_operation :: "FheProgramOperation \<Rightarrow> jsval" where
  "js_of_operation (InputCiphertextOp n) =
     JObj [(''kind'', JStr ''InputCiphertext''), (''data'', JNum n)]"
| "js_of_operation MultiplyOp = JObj [(''kind'', JStr ''Multiply'')]"
| "js_of_operation AddOp = JObj [(''kind'', JStr ''Add'')]"
| "js_of_operation RelinearizeOp = JObj [(''kind'', JStr ''Relinearize'')]"
| "js_of_operation OutputCiphertextOp = JObj [(''kind'', JStr ''OutputCiphertext'')]"

definition js_of_node :: "FheProgramNode \<Rightarrow> jsval" where
  "js_of_node n = JObj [(''operation'', js_of_operation (operation n))]"

fun js_of_EdgeType :: "EdgeType \<Rightarrow> jsval" where
  "js_of_EdgeType Left = JStr ''Left''"
| "js_of_EdgeType Right = JStr ''Right''"
| "js_of_EdgeType Unary = JStr ''Unary''"

fun js_of_edge :: "FheProgramEdge \<Rightarrow> jsval" where
  "js_of_edge (s, t, role) = JArr [JNum s, JNum t, js_of_EdgeType role]"

definition js_of_graph :: "FheProgramGraph \<Rightarrow> jsval" where
  "js_of_graph g =
     JObj [(''nodes'', JArr (map js_of_node (fhe_nodes g))),
           (''edges'', JArr (map js_of_edge (fhe_edges g)))]"

text \<open>
  The graph of the sample payload as a value of the declared type: the thirteen
  operations and the thirteen edges of line 171, in their order.
\<close>

definition sampleGraph :: FheProgramGraph where
  "sampleGraph =
     \<lparr>fhe_nodes = map (\<lambda>op. \<lparr>operation = op\<rparr>)
        [InputCiphertextOp 0, InputCiphertextOp 1, InputCiphertextOp 2, InputCiphertextOp 3,
         MultiplyOp, MultiplyOp, MultiplyOp, AddOp, OutputCiphertextOp, OutputCiphertextOp,
         RelinearizeOp, RelinearizeOp, RelinearizeOp],
      fhe_edges =
        [(0, 4, Left), (3, 4, Right), (1, 5, Left), (2, 5, Right), (1, 6, Left),
         (3, 6, Right), (12, 7, Left), (10, 7, Right), (7, 8, Unary), (11, 9, Unary),
         (5, 10, Unary), (6, 11, Unary), (4, 12, Unary)]\<rparr>"

section \<open>The application\<close>

text \<open>
  \<^verbatim>\<open>sampleData\<close> (line 171): the value \<^verbatim>\<open>JSON.parse\<close> returns for the literal, written
  out. An input operation is the one-property object \<^verbatim>\<open>{"InputCiphertext": n}\<close>, every
  other operation a string, and the graph lies two levels down, under
  \<^verbatim>\<open>graph.graph\<close>.
\<close>

definition sampleData_graph :: jsval where
  "sampleData_graph =
     JObj [(''nodes'', JArr
             [JObj [(''operation'', JObj [(''InputCiphertext'', JNum 0)])],
              JObj [(''operation'', JObj [(''InputCiphertext'', JNum 1)])],
              JObj [(''operation'', JObj [(''InputCiphertext'', JNum 2)])],
              JObj [(''operation'', JObj [(''InputCiphertext'', JNum 3)])],
              JObj [(''operation'', JStr ''Multiply'')],
              JObj [(''operation'', JStr ''Multiply'')],
              JObj [(''operation'', JStr ''Multiply'')],
              JObj [(''operation'', JStr ''Add'')],
              JObj [(''operation'', JStr ''OutputCiphertext'')],
              JObj [(''operation'', JStr ''OutputCiphertext'')],
              JObj [(''operation'', JStr ''Relinearize'')],
              JObj [(''operation'', JStr ''Relinearize'')],
              JObj [(''operation'', JStr ''Relinearize'')]]),
           (''node_holes'', JArr []),
           (''edge_property'', JStr ''directed''),
           (''edges'', JArr
             [JArr [JNum 0, JNum 4, JStr ''Left''],
              JArr [JNum 3, JNum 4, JStr ''Right''],
              JArr [JNum 1, JNum 5, JStr ''Left''],
              JArr [JNum 2, JNum 5, JStr ''Right''],
              JArr [JNum 1, JNum 6, JStr ''Left''],
              JArr [JNum 3, JNum 6, JStr ''Right''],
              JArr [JNum 12, JNum 7, JStr ''Left''],
              JArr [JNum 10, JNum 7, JStr ''Right''],
              JArr [JNum 7, JNum 8, JStr ''Unary''],
              JArr [JNum 11, JNum 9, JStr ''Unary''],
              JArr [JNum 5, JNum 10, JStr ''Unary''],
              JArr [JNum 6, JNum 11, JStr ''Unary''],
              JArr [JNum 4, JNum 12, JStr ''Unary'']])]"

definition sampleData :: jsval where
  "sampleData = JObj [(''graph'', JObj [(''graph'', sampleData_graph)]), (''data'', JStr ''Bfv'')]"

text \<open>\<^verbatim>\<open>const exGraph = dataToGraph(sampleData, true)\<close> (line 172)\<close>

definition exGraph :: "runtime \<Rightarrow> error + render_graph" where
  "exGraph rt = dataToGraph rt sampleData True"

text \<open>
  Modelled from the spec: \<^verbatim>\<open>SelectionT\<close> is declared by the react-digraph package, which
  is not under \<^verbatim>\<open>src/\<close>. The spec calls a selection a set of node ids, and lines 208 and
  221 read \<^verbatim>\<open>nodes?.values().next().value\<close> from it: \<^verbatim>\<open>nodes\<close> is \<^verbatim>\<open>null\<close> or a
  collection of nodes keyed by id, kept in insertion order; \<^verbatim>\<open>edges\<close> likewise.
\<close>

record SelectionT =
  sel_nodes :: "(string \<times> jsval) list option"
  sel_edges :: "(string \<times> jsval) list option"

text \<open>
  The state of \<^verbatim>\<open>App\<close>, one field for each \<^verbatim>\<open>useState\<close> (lines 173 to 177). \<open>None\<close> in
  \<open>selected\<close> is \<^verbatim>\<open>null\<close>.
\<close>

record app_state =
  selectedLine :: int
  vertSize :: jsval
  horSize :: jsval
  currGraph :: render_graph
  selected :: "SelectionT option"

text \<open>
  The state after the first render, given the value of \<^verbatim>\<open>exGraph\<close>: the initial
  values of the five \<^verbatim>\<open>useState\<close> calls.
\<close>

definition initial_state :: "render_graph \<Rightarrow> app_state" where
  "initial_state exG =
     \<lparr>selectedLine = 0, vertSize = JUndefined, horSize = JUndefined,
      currGraph = exG, selected = None\<rparr>"

text \<open>
  The first render: \<^verbatim>\<open>exGraph\<close> is computed before any \<^verbatim>\<open>useState\<close>, so an exception of
  \<^verbatim>\<open>dataToGraph\<close> leaves the component without a state.
\<close>

definition App_init :: "runtime \<Rightarrow> error + app_state" where
  "App_init rt = (case exGraph rt of Inl e \<Rightarrow> Inl e | Inr g \<Rightarrow> Inr (initial_state g))"

text \<open>
  The example graph of a component that does render: what line 172 computes when it
  is given the graph inside the payload, \<^verbatim>\<open>sampleData.graph.graph\<close>.
\<close>

definition sample_exGraph :: "runtime \<Rightarrow> render_graph" where
  "sample_exGraph rt = projr (dataToGraph rt sampleData_graph True)"

text \<open>
  The object literal \<^verbatim>\<open>graph\<close> that \<^verbatim>\<open>updateLine\<close> builds (lines 182 to 202); the
  template literal \<^verbatim>\<open>`line ${lineNumber}`\<close> prints the number with \<^verbatim>\<open>Number::toString\<close>.
\<close>

definition line_graph :: "runtime \<Rightarrow> int \<Rightarrow> render_graph" where
  "line_graph rt lineNumber =
     \<lparr>nodes =
        [JObj [(''id'', JNum 1), (''title'', JStr (''line '' @ Number_toString rt lineNumber)),
               (''type'', JStr ''empty''), (''x'', JNum (- 10)), (''y'', JNum 0)],
         JObj [(''id'', JNum 2), (''title'', JStr ''test_func''),
               (''type'', JStr ''problematic''), (''x'', JNum 0), (''y'', JNum 0)]],
      edges =
        [JObj [(''source'', JNum 1), (''target'', JNum 2), (''directed'', JBool True),
               (''arrowhead'', JStr ''normal'')]]\<rparr>"

text \<open>
  \<^verbatim>\<open>updateLine\<close> (lines 179 to 205). It closes over \<^verbatim>\<open>exGraph\<close>, here the
  argument \<open>exG\<close>: the handler exists only in a component that has rendered, where
  \<^verbatim>\<open>exGraph\<close> is a graph.
\<close>

definition updateLine ::
  "runtime \<Rightarrow> render_graph \<Rightarrow> int \<Rightarrow> app_state \<Rightarrow> app_state" where
  "updateLine rt exG lineNumber st =
     (let st1 = st\<lparr>selectedLine := lineNumber\<rparr>;
          graph = line_graph rt lineNumber
      in st1\<lparr>currGraph := (if lineNumber \<noteq> 1 then graph else exG)\<rparr>)"

text \<open>
  The argument of \<^verbatim>\<open>console.log\<close> in \<^verbatim>\<open>updateSelection\<close>:
  \<^verbatim>\<open>selection.nodes?.values().next().value\<close>. Reading \<^verbatim>\<open>nodes\<close> from \<^verbatim>\<open>null\<close> throws;
  \<^verbatim>\<open>?.\<close> stops at a \<^verbatim>\<open>nodes\<close> that is \<^verbatim>\<open>null\<close> and gives \<^verbatim>\<open>undefined\<close>; otherwise the
  iterator's first result is the first node, or \<^verbatim>\<open>undefined\<close> when there is none.
\<close>

definition first_selected_node :: "SelectionT option \<Rightarrow> error + jsval" where
  "first_selected_node selection =
     (case selection of
        None \<Rightarrow> Inl TypeError
      | Some sel \<Rightarrow>
          (case sel_nodes sel of
             None \<Rightarrow> Inr JUndefined
           | Some [] \<Rightarrow> Inr JUndefined
           | Some ((k, n) # rest) \<Rightarrow> Inr n))"

text \<open>
  \<^verbatim>\<open>updateSelection\<close> (lines 207 to 209): \<^verbatim>\<open>select(selection)\<close> writes the state, then
  the argument of \<^verbatim>\<open>console.log\<close> is evaluated. The result is the state after the
  handler, and what was logged or the exception thrown. The event \<^verbatim>\<open>e\<close> is not read.
\<close>

definition updateSelection ::
  "SelectionT option \<Rightarrow> jsval \<Rightarrow> app_state \<Rightarrow> app_state \<times> (error + jsval)" where
  "updateSelection selection e st =
     (let st1 = st\<lparr>selected := selection\<rparr>
      in (st1, first_selected_node selection))"

section \<open>The translator on a store\<close>

text \<open>
  Whether a call changes its argument is a question about objects that are shared and
  updated in place, so the translator is modelled a second time, on a store. A store
  is the list of the cells allocated so far, an address an index into it. A value is
  a primitive or a reference; an array cell holds its elements and an object cell its
  own properties. \<^verbatim>\<open>[]\<close> and an object literal allocate a new cell at the end of the
  store; \<^verbatim>\<open>push\<close> replaces the array cell it is called on.
\<close>

datatype sval =
    SUndefined
  | SNull
  | SBool bool
  | SNum int
  | SStr string
  | SRef nat

datatype cell = CArr "sval list" | CObj "(string \<times> sval) list"

type_synonym store = "cell list"

text \<open>
  The JSON tree a value stands for, following at most \<open>n\<close> references one inside the
  other. A value that nests deeper than the store has cells is circular; \<open>tree\<close> is
  \<open>None\<close> for it.
\<close>

fun tree_of :: "store \<Rightarrow> nat \<Rightarrow> sval \<Rightarrow> jsval option" where
  "tree_of h n SUndefined = Some JUndefined"
| "tree_of h n SNull = Some JNull"
| "tree_of h n (SBool b) = Some (JBool b)"
| "tree_of h n (SNum k) = Some (JNum k)"
| "tree_of h n (SStr s) = Some (JStr s)"
| "tree_of h 0 (SRef a) = None"
| "tree_of h (Suc n) (SRef a) =
     (if a < length h then
        (case h ! a of
           CArr vs \<Rightarrow> map_option JArr (those (map (tree_of h n) vs))
         | CObj kvs \<Rightarrow>
             map_option JObj
               (those (map (\<lambda>kv. map_option (Pair (fst kv)) (tree_of h n (snd kv))) kvs)))
      else None)"

definition tree :: "store \<Rightarrow> sval \<Rightarrow> jsval option" where
  "tree h v = tree_of h (length h) v"

definition alloc :: "store \<Rightarrow> cell \<Rightarrow> store \<times> sval" where
  "alloc h c = (h @ [c], SRef (length h))"

text \<open>\<^verbatim>\<open>a.push(v)\<close>: only an array has the method.\<close>

fun push :: "store \<Rightarrow> sval \<Rightarrow> sval \<Rightarrow> error + store" where
  "push h (SRef a) v =
     (if a < length h then
        (case h ! a of
           CArr vs \<Rightarrow> Inr (h[a := CArr (vs @ [v])])
         | CObj kvs \<Rightarrow> Inl TypeError)
      else Inl TypeError)"
| "push h x v = Inl TypeError"

text \<open>
  The reads of \<open>get_prop\<close> and \<open>get_index\<close>, through the store. (A reference to no cell
  does not occur in a store built by allocation; it reads as \<^verbatim>\<open>undefined\<close>.)
\<close>

fun s_get_prop :: "store \<Rightarrow> sval \<Rightarrow> string \<Rightarrow> error + sval" where
  "s_get_prop h SUndefined k = Inl TypeError"
| "s_get_prop h SNull k = Inl TypeError"
| "s_get_prop h (SRef a) k =
     Inr (if a < length h then
            (case h ! a of
               CObj kvs \<Rightarrow> (case map_of kvs k of None \<Rightarrow> SUndefined | Some v \<Rightarrow> v)
             | CArr vs \<Rightarrow> if k = ''length'' then SNum (int (length vs)) else SUndefined)
          else SUndefined)"
| "s_get_prop h (SStr s) k = Inr (if k = ''length'' then SNum (int (length s)) else SUndefined)"
| "s_get_prop h (SBool b) k = Inr SUndefined"
| "s_get_prop h (SNum n) k = Inr SUndefined"

fun s_get_index :: "store \<Rightarrow> sval \<Rightarrow> nat \<Rightarrow> error + sval" where
  "s_get_index h SUndefined i = Inl TypeError"
| "s_get_index h SNull i = Inl TypeError"
| "s_get_index h (SRef a) i =
     Inr (if a < length h then
            (case h ! a of
               CArr vs \<Rightarrow> if i < length vs then vs ! i else SUndefined
             | CObj kvs \<Rightarrow> (case map_of kvs (dec_nat i) of None \<Rightarrow> SUndefined | Some v \<Rightarrow> v))
          else SUndefined)"
| "s_get_index h (SStr s) i = Inr (if i < length s then SStr [s ! i] else SUndefined)"
| "s_get_index h (SBool b) i = Inr SUndefined"
| "s_get_index h (SNum n) i = Inr SUndefined"

text \<open>
  The loop test. A length that is a reference is converted as its tree is; how the
  runtime compares a circular one is a further parameter, \<open>circ\<close>.
\<close>

fun s_less ::
  "runtime \<Rightarrow> (store \<Rightarrow> nat \<Rightarrow> sval \<Rightarrow> error + bool) \<Rightarrow> store \<Rightarrow> nat \<Rightarrow> sval \<Rightarrow> error + bool"
where
  "s_less rt circ h i (SNum n) = Inr (int i < n)"
| "s_less rt circ h i SUndefined = Inr False"
| "s_less rt circ h i SNull = Inr False"
| "s_less rt circ h i (SBool b) = Inr (b \<and> i = 0)"
| "s_less rt circ h i (SStr s) = less_coerced rt i (JStr s)"
| "s_less rt circ h i (SRef a) =
     (case tree h (SRef a) of
        Some t \<Rightarrow> less_coerced rt i t
      | None \<Rightarrow> circ h i (SRef a))"

text \<open>
  \<^verbatim>\<open>JSON.stringify(v)\<close>: a \<^verbatim>\<open>TypeError\<close> for a circular value, the text of its tree
  otherwise.
\<close>

definition s_stringify :: "runtime \<Rightarrow> store \<Rightarrow> sval \<Rightarrow> error + sval" where
  "s_stringify rt h v =
     (case tree h v of
        None \<Rightarrow> Inl TypeError
      | Some t \<Rightarrow> Inr (case JSON_stringify rt t of JStr s \<Rightarrow> SStr s | x \<Rightarrow> SUndefined))"

text \<open>The reads of the two loops.\<close>

definition s_nodes_length :: "store \<Rightarrow> sval \<Rightarrow> error + sval" where
  "s_nodes_length h d =
     (case s_get_prop h d ''nodes'' of Inl e \<Rightarrow> Inl e | Inr ns \<Rightarrow> s_get_prop h ns ''length'')"

definition s_node_operation :: "store \<Rightarrow> sval \<Rightarrow> nat \<Rightarrow> error + sval" where
  "s_node_operation h d i =
     (case s_get_prop h d ''nodes'' of
        Inl e \<Rightarrow> Inl e
      | Inr ns \<Rightarrow>
          (case s_get_index h ns i of
             Inl e \<Rightarrow> Inl e
           | Inr n \<Rightarrow> s_get_prop h n ''operation''))"

text \<open>The properties of the object literal that a round of the first loop pushes.\<close>

definition s_render_node :: "runtime \<Rightarrow> store \<Rightarrow> sval \<Rightarrow> nat \<Rightarrow> error + cell" where
  "s_render_node rt h d i =
     (case s_node_operation h d i of
        Inl e \<Rightarrow> Inl e
      | Inr op \<Rightarrow>
          (case s_get_prop h op ''kind'' of
             Inl e \<Rightarrow> Inl e
           | Inr kind \<Rightarrow>
               if kind = SStr ''InputCiphertext'' then
                 (case s_get_prop h op ''data'' of
                    Inl e \<Rightarrow> Inl e
                  | Inr slot \<Rightarrow>
                      (case s_stringify rt h slot of
                         Inl e \<Rightarrow> Inl e
                       | Inr title \<Rightarrow>
                           Inr (CObj [(''id'', SNum (int i)), (''title'', title),
                                      (''type'', SStr ''input'')])))
               else
                 (case s_node_operation h d i of
                    Inl e \<Rightarrow> Inl e
                  | Inr op' \<Rightarrow>
                      (case s_stringify rt h op' of
                         Inl e \<Rightarrow> Inl e
                       | Inr title \<Rightarrow>
                           Inr (CObj [(''id'', SNum (int i)), (''title'', title),
                                      (''type'', SStr ''empty'')])))))"

definition s_edges_length :: "store \<Rightarrow> sval \<Rightarrow> error + sval" where
  "s_edges_length h d =
     (case s_get_prop h d ''edges'' of Inl e \<Rightarrow> Inl e | Inr es \<Rightarrow> s_get_prop h es ''length'')"

definition s_edge_component :: "store \<Rightarrow> sval \<Rightarrow> nat \<Rightarrow> nat \<Rightarrow> error + sval" where
  "s_edge_component h d i j =
     (case s_get_prop h d ''edges'' of
        Inl e \<Rightarrow> Inl e
      | Inr es \<Rightarrow>
          (case s_get_index h es i of
             Inl e \<Rightarrow> Inl e
           | Inr ed \<Rightarrow> s_get_index h ed j))"

definition s_render_edge :: "store \<Rightarrow> sval \<Rightarrow> nat \<Rightarrow> error + cell" where
  "s_render_edge h d i =
     (case s_edge_component h d i 0 of
        Inl e \<Rightarrow> Inl e
      | Inr src \<Rightarrow>
          (case s_edge_component h d i 1 of
             Inl e \<Rightarrow> Inl e
           | Inr tgt \<Rightarrow>
               (case s_edge_component h d i 2 of
                  Inl e \<Rightarrow> Inl e
                | Inr role \<Rightarrow>
                    Inr (CObj [(''source'', src), (''target'', tgt), (''type'', role)]))))"

text \<open>
  The loops, with the local variable \<open>arr\<close> (\<^verbatim>\<open>nodes\<close>, \<^verbatim>\<open>edges\<close>) a value of its own:
  every round reads the store as the rounds before have left it, allocates the
  object literal and pushes the reference. A loop that pushed onto the array it
  walks would not end; \<open>None\<close> is a run without end.
\<close>

partial_function (option) s_nodes_loop ::
  "runtime \<Rightarrow> (store \<Rightarrow> nat \<Rightarrow> sval \<Rightarrow> error + bool) \<Rightarrow> sval \<Rightarrow> sval \<Rightarrow> nat \<Rightarrow> store \<Rightarrow>
   (store \<times> error option) option"
where
  "s_nodes_loop rt circ d arr i h =
     (case s_nodes_length h d of
        Inl e \<Rightarrow> Some (h, Some e)
      | Inr len \<Rightarrow>
          (case s_less rt circ h i len of
             Inl e \<Rightarrow> Some (h, Some e)
           | Inr c \<Rightarrow>
               if \<not> c then Some (h, None)
               else
                 (case s_render_node rt h d i of
                    Inl e \<Rightarrow> Some (h, Some e)
                  | Inr obj \<Rightarrow>
                      (case push (fst (alloc h obj)) arr (snd (alloc h obj)) of
                         Inl e \<Rightarrow> Some (fst (alloc h obj), Some e)
                       | Inr h' \<Rightarrow> s_nodes_loop rt circ d arr (Suc i) h'))))"

partial_function (option) s_edges_loop ::
  "runtime \<Rightarrow> (store \<Rightarrow> nat \<Rightarrow> sval \<Rightarrow> error + bool) \<Rightarrow> sval \<Rightarrow> sval \<Rightarrow> nat \<Rightarrow> store \<Rightarrow>
   (store \<times> error option) option"
where
  "s_edges_loop rt circ d arr i h =
     (case s_edges_length h d of
        Inl e \<Rightarrow> Some (h, Some e)
      | Inr len \<Rightarrow>
          (case s_less rt circ h i len of
             Inl e \<Rightarrow> Some (h, Some e)
           | Inr c \<Rightarrow>
               if \<not> c then Some (h, None)
               else
                 (case s_render_edge h d i of
                    Inl e \<Rightarrow> Some (h, Some e)
                  | Inr obj \<Rightarrow>
                      (case push (fst (alloc h obj)) arr (snd (alloc h obj)) of
                         Inl e \<Rightarrow> Some (fst (alloc h obj), Some e)
                       | Inr h' \<Rightarrow> s_edges_loop rt circ d arr (Suc i) h'))))"

text \<open>
  \<^verbatim>\<open>dataToGraph\<close> on a store: \<^verbatim>\<open>const nodes = []\<close>, \<^verbatim>\<open>const edges = []\<close>, the two
  loops, and the object literal returned. The result is the store after the call and
  the reference returned or the exception.
\<close>

definition s_dataToGraph ::
  "runtime \<Rightarrow> (store \<Rightarrow> nat \<Rightarrow> sval \<Rightarrow> error + bool) \<Rightarrow> store \<Rightarrow> sval \<Rightarrow> bool \<Rightarrow>
   (store \<times> (error + sval)) option"
where
  "s_dataToGraph rt circ h d incRelin =
     (let h1 = fst (alloc h (CArr [])); nodes_arr = snd (alloc h (CArr []));
          h2 = fst (alloc h1 (CArr [])); edges_arr = snd (alloc h1 (CArr []))
      in case s_nodes_loop rt circ d nodes_arr 0 h2 of
           None \<Rightarrow> None
         | Some (h3, Some e) \<Rightarrow> Some (h3, Inl e)
         | Some (h3, None) \<Rightarrow>
             (case s_edges_loop rt circ d edges_arr 0 h3 of
                None \<Rightarrow> None
              | Some (h4, Some e) \<Rightarrow> Some (h4, Inl e)
              | Some (h4, None) \<Rightarrow>
                  Some (fst (alloc h4 (CObj [(''nodes'', nodes_arr), (''edges'', edges_arr)])),
                        Inr (snd (alloc h4 (CObj [(''nodes'', nodes_arr), (''edges'', edges_arr)]))))))"

text \<open>The value returned by the value-level translator, as one tree.\<close>

definition js_of_render_graph :: "render_graph \<Rightarrow> jsval" where
  "js_of_render_graph g = JObj [(''nodes'', JArr (nodes g)), (''edges'', JArr (edges g))]"

text \<open>A small store for examples: the graph of one input node and one edge.\<close>

definition example_store :: store where
  "example_store =
     [CObj [(''kind'', SStr ''InputCiphertext''), (''data'', SNum 0)],
      CObj [(''operation'', SRef 0)],
      CArr [SRef 1],
      CArr [SNum 0, SNum 0, SStr ''Left''],
      CArr [SRef 3],
      CObj [(''nodes'', SRef 2), (''edges'', SRef 4)]]"

subsection \<open>What a call leaves in place, and what it builds\<close>

text \<open>
  The relations of the refinement proof. A store \<open>h\<close> extends \<open>h0\<close> when every cell of
  \<open>h0\<close> is in \<open>h\<close>, at its address and unchanged.
\<close>

definition extends :: "store \<Rightarrow> store \<Rightarrow> bool" where
  "extends h0 h = (length h0 \<le> length h \<and> (\<forall>a<length h0. h ! a = h0 ! a))"

text \<open>
  An object cell stands for a value-level object when it has the same property names
  in the same order and every property value stands, in the store \<open>h0\<close> the call began
  with, for the tree of the value-level property.
\<close>

definition fields_rep :: "store \<Rightarrow> cell \<Rightarrow> jsval \<Rightarrow> bool" where
  "fields_rep h0 c n =
     (\<exists>kvs kts. c = CObj kvs \<and> n = JObj kts \<and>
        list_all2 (\<lambda>kv kt. fst kt = fst kv \<and> tree h0 (snd kv) = Some (snd kt)) kvs kts)"

text \<open>
  The local array \<open>arr\<close> stands for the list \<open>ns\<close> when it is a cell allocated since
  \<open>h0\<close> whose elements are references to object cells that stand for the elements of
  \<open>ns\<close>, one by one.
\<close>

definition obj_rep :: "store \<Rightarrow> store \<Rightarrow> sval \<Rightarrow> jsval \<Rightarrow> bool" where
  "obj_rep h0 h r n = (\<exists>b. r = SRef b \<and> b < length h \<and> fields_rep h0 (h ! b) n)"

definition refs_rep :: "store \<Rightarrow> store \<Rightarrow> sval \<Rightarrow> jsval list \<Rightarrow> bool" where
  "refs_rep h0 h arr ns =
     (\<exists>a rs. arr = SRef a \<and> length h0 \<le> a \<and> a < length h \<and> h ! a = CArr rs \<and>
        list_all2 (obj_rep h0 h) rs ns)"

section \<open>The loops\<close>

lemma edges_loop_nodes: "nodes (fst (edges_loop rt i s)) = nodes s"
proof (induction rt i s rule: edges_loop.induct)
  case (1 rt i s)
  then show ?case
    by (subst edges_loop.simps) (auto split: sum.splits)
qed

subsection \<open>A loop over a container of known length\<close>

text \<open>
  When the length is the number \<open>n\<close> and every round from \<open>i\<close> on succeeds, the loop
  appends the results of the rounds \<open>i, ..., n - 1\<close> in order.
\<close>

lemma nodes_loop_array:
  assumes "nodes_length (data s) = Inr (JNum (int n))"
    and "\<And>j. i \<le> j \<Longrightarrow> j < n \<Longrightarrow> render_node rt (data s) j = Inr (f j)"
  shows "nodes_loop rt i s = (s\<lparr>nodes := nodes s @ map f [i..<n]\<rparr>, None)"
  using assms
proof (induction "n - i" arbitrary: i s)
  case 0
  then have "\<not> i < n" by simp
  with 0 show ?case
    by (subst nodes_loop.simps) simp
next
  case (Suc k)
  then have lt: "i < n" by simp
  let ?s = "s\<lparr>nodes := nodes s @ [f i]\<rparr>"
  have "nodes_loop rt (Suc i) ?s = (?s\<lparr>nodes := nodes ?s @ map f [Suc i..<n]\<rparr>, None)"
    using Suc by (intro Suc.hyps(1)) auto
  moreover have "nodes_loop rt i s = nodes_loop rt (Suc i) ?s"
    using lt Suc.prems by (subst nodes_loop.simps) simp
  ultimately show ?case
    using lt by (simp add: upt_conv_Cons)
qed

lemma edges_loop_array:
  assumes "edges_length (data s) = Inr (JNum (int n))"
    and "\<And>j. i \<le> j \<Longrightarrow> j < n \<Longrightarrow> render_edge (data s) j = Inr (f j)"
  shows "edges_loop rt i s = (s\<lparr>edges := edges s @ map f [i..<n]\<rparr>, None)"
  using assms
proof (induction "n - i" arbitrary: i s)
  case 0
  then have "\<not> i < n" by simp
  with 0 show ?case
    by (subst edges_loop.simps) simp
next
  case (Suc k)
  then have lt: "i < n" by simp
  let ?s = "s\<lparr>edges := edges s @ [f i]\<rparr>"
  have "edges_loop rt (Suc i) ?s = (?s\<lparr>edges := edges ?s @ map f [Suc i..<n]\<rparr>, None)"
    using Suc by (intro Suc.hyps(1)) auto
  moreover have "edges_loop rt i s = edges_loop rt (Suc i) ?s"
    using lt Suc.prems by (subst edges_loop.simps) simp
  ultimately show ?case
    using lt by (simp add: upt_conv_Cons)
qed

subsection \<open>Every node of a result was pushed by a round\<close>

lemma nodes_loop_nth:
  "nodes_loop rt i s = (s', None) \<Longrightarrow>
   \<exists>ns. nodes s' = nodes s @ ns \<and>
        (\<forall>j<length ns. render_node rt (data s) (i + j) = Inr (ns ! j))"
proof (induction rt i s rule: nodes_loop.induct)
  case (1 rt i s)
  show ?case
  proof (cases "nodes_length (data s)")
    case (Inl e)
    with "1.prems" show ?thesis by (subst (asm) nodes_loop.simps) simp
  next
    case len: (Inr len)
    show ?thesis
    proof (cases "js_less rt i len")
      case (Inl e)
      with len "1.prems" show ?thesis by (subst (asm) nodes_loop.simps) simp
    next
      case c: (Inr c)
      show ?thesis
      proof (cases c)
        case False
        with len c "1.prems" show ?thesis by (subst (asm) nodes_loop.simps) simp
      next
        case True
        show ?thesis
        proof (cases "render_node rt (data s) i")
          case (Inl e)
          with len c True "1.prems" show ?thesis by (subst (asm) nodes_loop.simps) simp
        next
          case n: (Inr n)
          let ?s = "s\<lparr>nodes := nodes s @ [n]\<rparr>"
          from len c True n "1.prems" have run: "nodes_loop rt (Suc i) ?s = (s', None)"
            by (subst (asm) nodes_loop.simps) simp
          from "1.IH"[OF len c _ n run] True
          obtain ns where ns: "nodes s' = nodes ?s @ ns"
            "\<forall>j<length ns. render_node rt (data ?s) (Suc i + j) = Inr (ns ! j)"
            by auto
          have "nodes s' = nodes s @ (n # ns)" using ns(1) by simp
          moreover have
            "\<forall>j<length (n # ns). render_node rt (data s) (i + j) = Inr ((n # ns) ! j)"
          proof (intro allI impI)
            fix j assume "j < length (n # ns)"
            then show "render_node rt (data s) (i + j) = Inr ((n # ns) ! j)"
              using n ns(2) by (cases j) auto
          qed
          ultimately show ?thesis by blast
        qed
      qed
    qed
  qed
qed

lemma dataToGraph_nth:
  assumes "dataToGraph rt d incRelin = Inr r" and "i < length (nodes r)"
  shows "render_node rt d i = Inr (nodes r ! i)"
proof -
  let ?s0 = "\<lparr>nodes = [], edges = [], data = d\<rparr>"
  obtain s1 e1 where n: "nodes_loop rt 0 ?s0 = (s1, e1)"
    by (cases "nodes_loop rt 0 ?s0")
  from assms(1) n have e1: "e1 = None"
    by (cases e1) (simp_all add: dataToGraph_def dataToGraph_run_def)
  obtain s2 e2 where e: "edges_loop rt 0 s1 = (s2, e2)"
    by (cases "edges_loop rt 0 s1")
  from assms(1) n e1 e have r: "nodes r = nodes s2"
    by (cases e2) (auto simp: dataToGraph_def dataToGraph_run_def)
  have "nodes s2 = nodes s1"
    using edges_loop_nodes[of rt 0 s1] e by simp
  moreover from nodes_loop_nth[of rt 0 ?s0 s1] n e1
  obtain ns where "nodes s1 = ns" "\<forall>j<length ns. render_node rt d j = Inr (ns ! j)"
    by auto
  ultimately show ?thesis
    using r assms(2) by simp
qed

lemma render_node_type:
  "render_node rt d i = Inr n \<Longrightarrow>
   get_prop n ''type'' = Inr (JStr ''input'') \<or> get_prop n ''type'' = Inr (JStr ''empty'')"
  by (auto simp: render_node_def split: sum.splits if_splits)

lemma render_node_id:
  "render_node rt d i = Inr n \<Longrightarrow> get_prop n ''id'' = Inr (JNum (int i))"
  by (auto simp: render_node_def split: sum.splits if_splits)


section \<open>Graphs of the declared type\<close>

text \<open>
  On the run-time value of a \<open>FheProgramGraph\<close> no read fails: both loops run to the
  end, one round for each node and one for each edge.
\<close>

lemma get_prop_graph_nodes:
  "get_prop (js_of_graph g) ''nodes'' = Inr (JArr (map js_of_node (fhe_nodes g)))"
  by (simp add: js_of_graph_def)

lemma get_prop_graph_edges:
  "get_prop (js_of_graph g) ''edges'' = Inr (JArr (map js_of_edge (fhe_edges g)))"
  by (simp add: js_of_graph_def)

lemma nodes_length_typed:
  "nodes_length (js_of_graph g) = Inr (JNum (int (length (fhe_nodes g))))"
  by (simp add: nodes_length_def get_prop_graph_nodes)

lemma edges_length_typed:
  "edges_length (js_of_graph g) = Inr (JNum (int (length (fhe_edges g))))"
  by (simp add: edges_length_def get_prop_graph_edges)

lemma node_operation_typed:
  "j < length (fhe_nodes g) \<Longrightarrow>
   node_operation (js_of_graph g) j = Inr (js_of_operation (operation (fhe_nodes g ! j)))"
  by (simp add: node_operation_def js_of_node_def get_prop_graph_nodes)

lemma JSON_stringify_JNum: "JSON_stringify rt (JNum n) = JStr (Number_toString rt n)"
  by (simp add: JSON_stringify_def)

lemma render_node_typed:
  "j < length (fhe_nodes g) \<Longrightarrow>
   render_node rt (js_of_graph g) j =
     Inr (case operation (fhe_nodes g ! j) of
            InputCiphertextOp slot \<Rightarrow>
              JObj [(''id'', JNum (int j)), (''title'', JStr (Number_toString rt slot)),
                    (''type'', JStr ''input'')]
          | op \<Rightarrow>
              JObj [(''id'', JNum (int j)), (''title'', JSON_stringify rt (js_of_operation op)),
                    (''type'', JStr ''empty'')])"
  by (cases "operation (fhe_nodes g ! j)")
     (simp_all add: render_node_def node_operation_typed JSON_stringify_JNum)

lemma render_edge_typed:
  "j < length (fhe_edges g) \<Longrightarrow>
   render_edge (js_of_graph g) j =
     Inr (case fhe_edges g ! j of
            (s, t, role) \<Rightarrow>
              JObj [(''source'', JNum s), (''target'', JNum t), (''type'', js_of_EdgeType role)])"
  by (cases "fhe_edges g ! j")
     (simp add: render_edge_def edge_component_def get_prop_graph_edges)


lemma dataToGraph_typed:
  "dataToGraph rt (js_of_graph g) incRelin =
     Inr \<lparr>nodes = map (\<lambda>j. projr (render_node rt (js_of_graph g) j)) [0..<length (fhe_nodes g)],
          edges = map (\<lambda>j. projr (render_edge (js_of_graph g) j)) [0..<length (fhe_edges g)]\<rparr>"
proof -
  let ?d = "js_of_graph g"
  let ?ns = "map (\<lambda>j. projr (render_node rt ?d j)) [0..<length (fhe_nodes g)]"
  let ?es = "map (\<lambda>j. projr (render_edge ?d j)) [0..<length (fhe_edges g)]"
  let ?s0 = "\<lparr>nodes = [], edges = [], data = ?d\<rparr>"
  let ?s1 = "\<lparr>nodes = ?ns, edges = [], data = ?d\<rparr>"
  have "nodes_loop rt 0 ?s0 = (?s0\<lparr>nodes := nodes ?s0 @ ?ns\<rparr>, None)"
    by (rule nodes_loop_array) (simp_all add: nodes_length_typed render_node_typed)
  then have n: "nodes_loop rt 0 ?s0 = (?s1, None)"
    by simp
  have "edges_loop rt 0 ?s1 = (?s1\<lparr>edges := edges ?s1 @ ?es\<rparr>, None)"
    by (rule edges_loop_array) (simp_all add: edges_length_typed render_edge_typed)
  then have e: "edges_loop rt 0 ?s1 = (\<lparr>nodes = ?ns, edges = ?es, data = ?d\<rparr>, None)"
    by simp
  show ?thesis
    unfolding dataToGraph_def dataToGraph_run_def n by (simp add: e)
qed

section \<open>The translator on a store refines the translator on values\<close>

subsection \<open>Trees are stable under allocation\<close>

lemma those_Some_iff: "those xs = Some ys \<longleftrightarrow> list_all2 (\<lambda>x y. x = Some y) xs ys"
  by (induction xs arbitrary: ys) (auto simp: list_all2_Cons1 split: option.splits)

lemma those_map_Some_iff:
  "those (map f xs) = Some ys \<longleftrightarrow> list_all2 (\<lambda>x y. f x = Some y) xs ys"
  by (simp add: those_Some_iff list_all2_map1)

lemma tree_of_ref_cases:
  assumes "tree_of h m (SRef a) = Some t"
  obtains n vs ts where "m = Suc n" "a < length h" "h ! a = CArr vs" "t = JArr ts"
      "list_all2 (\<lambda>v t'. tree_of h n v = Some t') vs ts"
  | n kvs kts where "m = Suc n" "a < length h" "h ! a = CObj kvs" "t = JObj kts"
      "list_all2 (\<lambda>kv kt. fst kt = fst kv \<and> tree_of h n (snd kv) = Some (snd kt)) kvs kts"
proof (cases m)
  case 0
  with assms show ?thesis by simp
next
  case (Suc n)
  with assms have a: "a < length h" by (simp split: if_splits)
  show ?thesis
  proof (cases "h ! a")
    case (CArr vs)
    with assms Suc a obtain ts where "t = JArr ts" "those (map (tree_of h n) vs) = Some ts"
      by auto
    with that(1)[OF Suc a CArr] show ?thesis
      by (simp add: those_map_Some_iff)
  next
    case (CObj kvs)
    with assms Suc a obtain kts where kts: "t = JObj kts"
      "those (map (\<lambda>kv. map_option (Pair (fst kv)) (tree_of h n (snd kv))) kvs) = Some kts"
      by auto
    from kts(2) have "list_all2 (\<lambda>kv kt. fst kt = fst kv \<and> tree_of h n (snd kv) = Some (snd kt)) kvs kts"
      unfolding those_map_Some_iff
      by (rule list_all2_mono) auto
    with that(2)[OF Suc a CObj kts(1)] show ?thesis by simp
  qed
qed

lemma tree_of_arr:
  assumes "a < length h" "h ! a = CArr vs" "list_all2 (\<lambda>v t'. tree_of h n v = Some t') vs ts"
  shows "tree_of h (Suc n) (SRef a) = Some (JArr ts)"
  using assms by (simp add: those_map_Some_iff)

lemma tree_of_obj:
  assumes "a < length h" "h ! a = CObj kvs"
    "list_all2 (\<lambda>kv kt. fst kt = fst kv \<and> tree_of h n (snd kv) = Some (snd kt)) kvs kts"
  shows "tree_of h (Suc n) (SRef a) = Some (JObj kts)"
proof -
  from assms(3) have "list_all2 (\<lambda>kv kt. map_option (Pair (fst kv)) (tree_of h n (snd kv)) = Some kt) kvs kts"
    by (rule list_all2_mono) (auto simp: prod_eq_iff)
  with assms(1,2) show ?thesis
    by (simp add: those_map_Some_iff)
qed

lemma tree_of_frame_mono:
  assumes "tree_of h n v = Some t" "extends h h'" "n \<le> m"
  shows "tree_of h' m v = Some t"
  using assms
proof (induction n arbitrary: v t m)
  case 0
  then show ?case by (cases v) auto
next
  case (Suc n)
  show ?case
  proof (cases v)
    case (SRef a)
    from Suc.prems(3) obtain m' where m: "m = Suc m'" "n \<le> m'"
      by (cases m) auto
    from Suc.prems(1)[unfolded SRef] show ?thesis
    proof (cases rule: tree_of_ref_cases)
      case (1 k vs ts)
      then have k: "k = n" by simp
      from 1 Suc.prems(2) have c: "a < length h'" "h' ! a = CArr vs"
        by (auto simp: extends_def)
      from 1(5) have "list_all2 (\<lambda>v t'. tree_of h' m' v = Some t') vs ts"
        unfolding k
        by (rule list_all2_mono) (use Suc.IH Suc.prems(2) m(2) in blast)
      with c show ?thesis
        unfolding SRef m(1) 1(4) by (rule tree_of_arr)
    next
      case (2 k kvs kts)
      then have k: "k = n" by simp
      from 2 Suc.prems(2) have c: "a < length h'" "h' ! a = CObj kvs"
        by (auto simp: extends_def)
      from 2(5) have "list_all2 (\<lambda>kv kt. fst kt = fst kv \<and> tree_of h' m' (snd kv) = Some (snd kt)) kvs kts"
        unfolding k
        by (rule list_all2_mono) (use Suc.IH Suc.prems(2) m(2) in blast)
      with c show ?thesis
        unfolding SRef m(1) 2(4) by (rule tree_of_obj)
    qed
  qed (use Suc.prems in auto)
qed

lemma tree_extends: "tree h v = Some t \<Longrightarrow> extends h h' \<Longrightarrow> tree h' v = Some t"
  unfolding tree_def by (rule tree_of_frame_mono) (auto simp: extends_def)

lemma extends_refl: "extends h h"
  by (simp add: extends_def)

lemma extends_trans: "extends h1 h2 \<Longrightarrow> extends h2 h3 \<Longrightarrow> extends h1 h3"
  by (auto simp: extends_def)

lemma tree_prim [simp]:
  "tree h SUndefined = Some JUndefined" "tree h SNull = Some JNull"
  "tree h (SBool b) = Some (JBool b)" "tree h (SNum n) = Some (JNum n)"
  "tree h (SStr s) = Some (JStr s)"
  by (simp_all add: tree_def)

lemma tree_sub: "tree_of h n v = Some t \<Longrightarrow> n \<le> length h \<Longrightarrow> tree h v = Some t"
  unfolding tree_def by (rule tree_of_frame_mono) (auto simp: extends_refl)

lemma map_of_rep:
  "list_all2 (\<lambda>kv kt. fst kt = fst kv \<and> P (snd kv) (snd kt)) kvs kts \<Longrightarrow>
   rel_option P (map_of kvs k) (map_of kts k)"
  by (induction rule: list_all2_induct) auto

lemma s_get_prop_rep:
  assumes "tree h0 v = Some t" "extends h0 h"
  shows "rel_sum (=) (\<lambda>v' t'. tree h0 v' = Some t') (s_get_prop h v k) (get_prop t k)"
proof (cases v)
  case (SRef a)
  from assms(1)[unfolded SRef tree_def] show ?thesis
  proof (cases rule: tree_of_ref_cases)
    case (1 n vs ts)
    with assms(2) have "a < length h" "h ! a = CArr vs"
      by (auto simp: extends_def)
    moreover from 1(5) have "length vs = length ts"
      by (rule list_all2_lengthD)
    ultimately show ?thesis
      using 1(4) by (simp add: SRef)
  next
    case (2 n kvs kts)
    with assms(2) have c: "a < length h" "h ! a = CObj kvs"
      by (auto simp: extends_def)
    from 2(5) have "list_all2 (\<lambda>kv kt. fst kt = fst kv \<and> tree h0 (snd kv) = Some (snd kt)) kvs kts"
      by (rule list_all2_mono) (use 2(1) in \<open>auto intro: tree_sub\<close>)
    from map_of_rep[OF this, of k] c 2(4) show ?thesis
      by (auto simp: SRef elim!: option.rel_cases)
  qed
qed (use assms in auto)

lemma s_get_index_rep:
  assumes "tree h0 v = Some t" "extends h0 h"
  shows "rel_sum (=) (\<lambda>v' t'. tree h0 v' = Some t') (s_get_index h v i) (get_index t i)"
proof (cases v)
  case (SRef a)
  from assms(1)[unfolded SRef tree_def] show ?thesis
  proof (cases rule: tree_of_ref_cases)
    case (1 n vs ts)
    with assms(2) have c: "a < length h" "h ! a = CArr vs"
      by (auto simp: extends_def)
    from 1(5) have l: "list_all2 (\<lambda>v t'. tree h0 v = Some t') vs ts"
      by (rule list_all2_mono) (use 1(1) in \<open>auto intro: tree_sub\<close>)
    then have "length vs = length ts"
      by (rule list_all2_lengthD)
    with l c 1(4) show ?thesis
      by (auto simp: SRef dest: list_all2_nthD)
  next
    case (2 n kvs kts)
    with assms(2) have c: "a < length h" "h ! a = CObj kvs"
      by (auto simp: extends_def)
    from 2(5) have "list_all2 (\<lambda>kv kt. fst kt = fst kv \<and> tree h0 (snd kv) = Some (snd kt)) kvs kts"
      by (rule list_all2_mono) (use 2(1) in \<open>auto intro: tree_sub\<close>)
    from map_of_rep[OF this, of "dec_nat i"] c 2(4) show ?thesis
      by (auto simp: SRef elim!: option.rel_cases)
  qed
qed (use assms in auto)

lemma s_less_rep:
  assumes "tree h v = Some t"
  shows "s_less rt circ h i v = js_less rt i t"
proof (cases v)
  case (SRef a)
  from assms[unfolded SRef tree_def] have "js_less rt i t = less_coerced rt i t"
    by (cases rule: tree_of_ref_cases) auto
  with assms SRef show ?thesis by simp
qed (use assms in auto)

lemma s_stringify_rep:
  assumes "tree h v = Some t"
  shows "\<exists>sv. s_stringify rt h v = Inr sv \<and> (\<forall>h' n. tree_of h' n sv = Some (JSON_stringify rt t))"
  using assms by (auto simp: s_stringify_def JSON_stringify_def split: option.splits)

subsection \<open>A round of a loop\<close>

lemma rel_sum_case:
  assumes "rel_sum (=) R x y"
    and "\<And>a b. R a b \<Longrightarrow> rel_sum (=) S (f a) (g b)"
  shows "rel_sum (=) S (case x of Inl e \<Rightarrow> Inl e | Inr a \<Rightarrow> f a)
                       (case y of Inl e \<Rightarrow> Inl e | Inr b \<Rightarrow> g b)"
  using assms by (auto elim!: rel_sum.cases)

lemma tree_eq_JStr: "tree h v = Some (JStr s) \<longleftrightarrow> v = SStr s"
proof
  assume a: "tree h v = Some (JStr s)"
  show "v = SStr s"
  proof (cases v)
    case (SRef a')
    from a[unfolded SRef tree_def] show ?thesis
      by (cases rule: tree_of_ref_cases) auto
  qed (use a in auto)
qed simp

lemma s_nodes_length_rep:
  assumes "tree h0 d = Some t" "extends h0 h"
  shows "rel_sum (=) (\<lambda>v' t'. tree h0 v' = Some t') (s_nodes_length h d) (nodes_length t)"
  unfolding s_nodes_length_def nodes_length_def
  by (rule rel_sum_case[OF s_get_prop_rep[OF assms]]) (rule s_get_prop_rep[OF _ assms(2)])

lemma s_edges_length_rep:
  assumes "tree h0 d = Some t" "extends h0 h"
  shows "rel_sum (=) (\<lambda>v' t'. tree h0 v' = Some t') (s_edges_length h d) (edges_length t)"
  unfolding s_edges_length_def edges_length_def
  by (rule rel_sum_case[OF s_get_prop_rep[OF assms]]) (rule s_get_prop_rep[OF _ assms(2)])

lemma s_node_operation_rep:
  assumes "tree h0 d = Some t" "extends h0 h"
  shows "rel_sum (=) (\<lambda>v' t'. tree h0 v' = Some t') (s_node_operation h d i) (node_operation t i)"
  unfolding s_node_operation_def node_operation_def
  by (rule rel_sum_case[OF s_get_prop_rep[OF assms]])
     (rule rel_sum_case[OF s_get_index_rep[OF _ assms(2)]], assumption,
      rule s_get_prop_rep[OF _ assms(2)])

lemma s_edge_component_rep:
  assumes "tree h0 d = Some t" "extends h0 h"
  shows "rel_sum (=) (\<lambda>v' t'. tree h0 v' = Some t') (s_edge_component h d i j)
           (edge_component t i j)"
  unfolding s_edge_component_def edge_component_def
  by (rule rel_sum_case[OF s_get_prop_rep[OF assms]])
     (rule rel_sum_case[OF s_get_index_rep[OF _ assms(2)]], assumption,
      rule s_get_index_rep[OF _ assms(2)])

lemma node_literal_rep:
  assumes "tree h v = Some t" "extends h0 h"
  shows "rel_sum (=) (fields_rep h0)
           (case s_stringify rt h v of
              Inl e \<Rightarrow> Inl e
            | Inr title \<Rightarrow>
                Inr (CObj [(''id'', SNum (int i)), (''title'', title), (''type'', SStr ty)]))
           (Inr (JObj [(''id'', JNum (int i)), (''title'', JSON_stringify rt t),
                       (''type'', JStr ty)]))"
proof -
  from s_stringify_rep[OF assms(1), of rt] obtain sv where
    "s_stringify rt h v = Inr sv" "\<forall>h' n. tree_of h' n sv = Some (JSON_stringify rt t)"
    by blast
  then show ?thesis
    by (simp add: fields_rep_def tree_def)
qed

lemma s_render_node_rep:
  assumes "tree h0 d = Some t" "extends h0 h"
  shows "rel_sum (=) (fields_rep h0) (s_render_node rt h d i) (render_node rt t i)"
  unfolding s_render_node_def render_node_def
proof (rule rel_sum_case[OF s_node_operation_rep[OF assms]])
  fix op opt assume op: "tree h0 op = Some opt"
  show "rel_sum (=) (fields_rep h0)
     (case s_get_prop h op ''kind'' of
        Inl e \<Rightarrow> Inl e
      | Inr kind \<Rightarrow>
          if kind = SStr ''InputCiphertext'' then
            (case s_get_prop h op ''data'' of
               Inl e \<Rightarrow> Inl e
             | Inr slot \<Rightarrow>
                 (case s_stringify rt h slot of
                    Inl e \<Rightarrow> Inl e
                  | Inr title \<Rightarrow>
                      Inr (CObj [(''id'', SNum (int i)), (''title'', title),
                                 (''type'', SStr ''input'')])))
          else
            (case s_node_operation h d i of
               Inl e \<Rightarrow> Inl e
             | Inr op' \<Rightarrow>
                 (case s_stringify rt h op' of
                    Inl e \<Rightarrow> Inl e
                  | Inr title \<Rightarrow>
                      Inr (CObj [(''id'', SNum (int i)), (''title'', title),
                                 (''type'', SStr ''empty'')]))))
     (case get_prop opt ''kind'' of
        Inl e \<Rightarrow> Inl e
      | Inr kind \<Rightarrow>
          if kind = JStr ''InputCiphertext'' then
            (case get_prop opt ''data'' of
               Inl e \<Rightarrow> Inl e
             | Inr slot \<Rightarrow>
                 Inr (JObj [(''id'', JNum (int i)), (''title'', JSON_stringify rt slot),
                            (''type'', JStr ''input'')]))
          else
            (case node_operation t i of
               Inl e \<Rightarrow> Inl e
             | Inr op' \<Rightarrow>
                 Inr (JObj [(''id'', JNum (int i)), (''title'', JSON_stringify rt op'),
                            (''type'', JStr ''empty'')])))"
  proof (rule rel_sum_case[OF s_get_prop_rep[OF op assms(2)]])
    fix kind kindt assume k: "tree h0 kind = Some kindt"
    then have eq: "kind = SStr ''InputCiphertext'' \<longleftrightarrow> kindt = JStr ''InputCiphertext''"
      using tree_eq_JStr[of h0 kind "''InputCiphertext''"] by auto
    show "rel_sum (=) (fields_rep h0)
       (if kind = SStr ''InputCiphertext'' then
            (case s_get_prop h op ''data'' of
               Inl e \<Rightarrow> Inl e
             | Inr slot \<Rightarrow>
                 (case s_stringify rt h slot of
                    Inl e \<Rightarrow> Inl e
                  | Inr title \<Rightarrow>
                      Inr (CObj [(''id'', SNum (int i)), (''title'', title),
                                 (''type'', SStr ''input'')])))
          else
            (case s_node_operation h d i of
               Inl e \<Rightarrow> Inl e
             | Inr op' \<Rightarrow>
                 (case s_stringify rt h op' of
                    Inl e \<Rightarrow> Inl e
                  | Inr title \<Rightarrow>
                      Inr (CObj [(''id'', SNum (int i)), (''title'', title),
                                 (''type'', SStr ''empty'')]))))
       (if kindt = JStr ''InputCiphertext'' then
            (case get_prop opt ''data'' of
               Inl e \<Rightarrow> Inl e
             | Inr slot \<Rightarrow>
                 Inr (JObj [(''id'', JNum (int i)), (''title'', JSON_stringify rt slot),
                            (''type'', JStr ''input'')]))
          else
            (case node_operation t i of
               Inl e \<Rightarrow> Inl e
             | Inr op' \<Rightarrow>
                 Inr (JObj [(''id'', JNum (int i)), (''title'', JSON_stringify rt op'),
                            (''type'', JStr ''empty'')])))"
    proof (cases "kindt = JStr ''InputCiphertext''")
      case True
      with eq have k: "kind = SStr ''InputCiphertext''" by simp
      show ?thesis
        unfolding if_P[OF k] if_P[OF True]
        by (rule rel_sum_case[OF s_get_prop_rep[OF op assms(2)]])
           (rule node_literal_rep[OF tree_extends[OF _ assms(2)] assms(2)])
    next
      case False
      with eq have k: "kind \<noteq> SStr ''InputCiphertext''" by simp
      show ?thesis
        unfolding if_not_P[OF k] if_not_P[OF False]
        by (rule rel_sum_case[OF s_node_operation_rep[OF assms]])
           (rule node_literal_rep[OF tree_extends[OF _ assms(2)] assms(2)])
    qed
  qed
qed

lemma s_render_edge_rep:
  assumes "tree h0 d = Some t" "extends h0 h"
  shows "rel_sum (=) (fields_rep h0) (s_render_edge h d i) (render_edge t i)"
  unfolding s_render_edge_def render_edge_def
proof (rule rel_sum_case[OF s_edge_component_rep[OF assms]])
  fix src srct assume s: "tree h0 src = Some srct"
  show "rel_sum (=) (fields_rep h0)
     (case s_edge_component h d i 1 of
        Inl e \<Rightarrow> Inl e
      | Inr tgt \<Rightarrow>
          (case s_edge_component h d i 2 of
             Inl e \<Rightarrow> Inl e
           | Inr role \<Rightarrow> Inr (CObj [(''source'', src), (''target'', tgt), (''type'', role)])))
     (case edge_component t i 1 of
        Inl e \<Rightarrow> Inl e
      | Inr tgt \<Rightarrow>
          (case edge_component t i 2 of
             Inl e \<Rightarrow> Inl e
           | Inr role \<Rightarrow> Inr (JObj [(''source'', srct), (''target'', tgt), (''type'', role)])))"
  proof (rule rel_sum_case[OF s_edge_component_rep[OF assms]])
    fix tgt tgtt assume g: "tree h0 tgt = Some tgtt"
    show "rel_sum (=) (fields_rep h0)
       (case s_edge_component h d i 2 of
          Inl e \<Rightarrow> Inl e
        | Inr role \<Rightarrow> Inr (CObj [(''source'', src), (''target'', tgt), (''type'', role)]))
       (case edge_component t i 2 of
          Inl e \<Rightarrow> Inl e
        | Inr role \<Rightarrow> Inr (JObj [(''source'', srct), (''target'', tgtt), (''type'', role)]))"
    proof (rule rel_sum_case[OF s_edge_component_rep[OF assms]])
      fix role rolet assume "tree h0 role = Some rolet"
      with s g show "rel_sum (=) (fields_rep h0)
          (Inr (CObj [(''source'', src), (''target'', tgt), (''type'', role)]))
          (Inr (JObj [(''source'', srct), (''target'', tgtt), (''type'', rolet)]))"
        by (simp add: fields_rep_def)
    qed
  qed
qed

subsection \<open>The loops\<close>

lemma push_alloc:
  assumes "refs_rep h0 h arr ns" "fields_rep h0 obj n" "extends h0 h"
  shows "\<exists>h'. push (fst (alloc h obj)) arr (snd (alloc h obj)) = Inr h' \<and> extends h0 h' \<and>
           length h \<le> length h' \<and> (\<forall>b<length h. SRef b \<noteq> arr \<longrightarrow> h' ! b = h ! b) \<and>
           refs_rep h0 h' arr (ns @ [n])"
proof -
  from assms(1) obtain a rs where a: "arr = SRef a" "length h0 \<le> a" "a < length h"
    "h ! a = CArr rs" "list_all2 (obj_rep h0 h) rs ns"
    by (auto simp: refs_rep_def)
  let ?h' = "(h @ [obj])[a := CArr (rs @ [SRef (length h)])]"
  have p: "push (fst (alloc h obj)) arr (snd (alloc h obj)) = Inr ?h'"
    using a by (simp add: alloc_def nth_append)
  have e: "extends h0 ?h'"
    using assms(3) a by (auto simp: extends_def nth_append)
  have f: "\<forall>b<length h. SRef b \<noteq> arr \<longrightarrow> ?h' ! b = h ! b"
    using a by (auto simp: nth_append)
  have old: "obj_rep h0 ?h' r n'" if "obj_rep h0 h r n'" for r n'
  proof -
    from that obtain b where b: "r = SRef b" "b < length h" "fields_rep h0 (h ! b) n'"
      by (auto simp: obj_rep_def)
    with a(4) have "b \<noteq> a" by (auto simp: fields_rep_def)
    with b show ?thesis
      by (auto simp: obj_rep_def nth_append)
  qed
  have new: "obj_rep h0 ?h' (SRef (length h)) n"
    using assms(2) a(3) by (auto simp: obj_rep_def)
  from a(5) have "list_all2 (obj_rep h0 ?h') rs ns"
    by (rule list_all2_mono) (rule old)
  with new have "list_all2 (obj_rep h0 ?h') (rs @ [SRef (length h)]) (ns @ [n])"
    by (simp add: list_all2_appendI)
  then have r: "refs_rep h0 ?h' arr (ns @ [n])"
    using a by (auto simp: refs_rep_def)
  from p e f r show ?thesis by auto
qed

lemma s_nodes_loop_sim:
  "tree h0 dv = Some (data s) \<Longrightarrow> extends h0 h \<Longrightarrow> refs_rep h0 h arr (nodes s) \<Longrightarrow>
   \<exists>h'. s_nodes_loop rt circ dv arr i h = Some (h', snd (nodes_loop rt i s)) \<and>
        extends h0 h' \<and> length h \<le> length h' \<and>
        (\<forall>b<length h. SRef b \<noteq> arr \<longrightarrow> h' ! b = h ! b) \<and>
        refs_rep h0 h' arr (nodes (fst (nodes_loop rt i s)))"
proof (induction rt i s arbitrary: h rule: nodes_loop.induct)
  case (1 rt i s)
  note rel_len = s_nodes_length_rep[OF "1.prems"(1,2)]
  show ?case
  proof (cases "nodes_length (data s)")
    case (Inl e)
    with rel_len have "s_nodes_length h dv = Inl e"
      by (auto elim: rel_sum.cases)
    with Inl "1.prems" show ?thesis
      by (subst s_nodes_loop.simps, subst (1 2) nodes_loop.simps) simp
  next
    case len: (Inr len)
    with rel_len obtain lenv where lenv: "s_nodes_length h dv = Inr lenv" "tree h0 lenv = Some len"
      by (auto elim: rel_sum.cases)
    from lenv(2) "1.prems"(2) have "tree h lenv = Some len"
      by (rule tree_extends)
    then have less: "s_less rt circ h i lenv = js_less rt i len"
      by (rule s_less_rep)
    show ?thesis
    proof (cases "js_less rt i len")
      case (Inl e)
      with len lenv less "1.prems" show ?thesis
        by (subst s_nodes_loop.simps, subst (1 2) nodes_loop.simps) simp
    next
      case c: (Inr c)
      show ?thesis
      proof (cases c)
        case False
        with c len lenv less "1.prems" show ?thesis
          by (subst s_nodes_loop.simps, subst (1 2) nodes_loop.simps) simp
      next
        case True
        note rel_node = s_render_node_rep[OF "1.prems"(1,2), of rt i]
        show ?thesis
        proof (cases "render_node rt (data s) i")
          case (Inl e)
          with rel_node have "s_render_node rt h dv i = Inl e"
            by (auto elim: rel_sum.cases)
          with Inl True c len lenv less "1.prems" show ?thesis
            by (subst s_nodes_loop.simps, subst (1 2) nodes_loop.simps) simp
        next
          case n: (Inr n)
          with rel_node obtain obj where obj: "s_render_node rt h dv i = Inr obj"
            "fields_rep h0 obj n"
            by (auto elim: rel_sum.cases)
          from push_alloc[OF "1.prems"(3) obj(2) "1.prems"(2)]
          obtain h1 where h1: "push (fst (alloc h obj)) arr (snd (alloc h obj)) = Inr h1"
            "extends h0 h1" "length h \<le> length h1"
            "\<forall>b<length h. SRef b \<noteq> arr \<longrightarrow> h1 ! b = h ! b"
            "refs_rep h0 h1 arr (nodes s @ [n])"
            by blast
          let ?s = "s\<lparr>nodes := nodes s @ [n]\<rparr>"
          from "1.IH"[OF len c _ n, of h1] True "1.prems"(1) h1(2,5)
          obtain h2 where h2:
            "s_nodes_loop rt circ dv arr (Suc i) h1 = Some (h2, snd (nodes_loop rt (Suc i) ?s))"
            "extends h0 h2" "length h1 \<le> length h2"
            "\<forall>b<length h1. SRef b \<noteq> arr \<longrightarrow> h2 ! b = h1 ! b"
            "refs_rep h0 h2 arr (nodes (fst (nodes_loop rt (Suc i) ?s)))"
            by auto
          have pure: "nodes_loop rt i s = nodes_loop rt (Suc i) ?s"
            using len c True n by (subst nodes_loop.simps) simp
          have st: "s_nodes_loop rt circ dv arr i h = s_nodes_loop rt circ dv arr (Suc i) h1"
            using lenv less c True obj(1) h1(1) by (subst s_nodes_loop.simps) simp
          from h1(3,4) h2(3,4) have "\<forall>b<length h. SRef b \<noteq> arr \<longrightarrow> h2 ! b = h ! b"
            by auto
          with h1(3) h2 show ?thesis
            unfolding pure st by auto
        qed
      qed
    qed
  qed
qed

lemma s_edges_loop_sim:
  "tree h0 dv = Some (data s) \<Longrightarrow> extends h0 h \<Longrightarrow> refs_rep h0 h arr (edges s) \<Longrightarrow>
   \<exists>h'. s_edges_loop rt circ dv arr i h = Some (h', snd (edges_loop rt i s)) \<and>
        extends h0 h' \<and> length h \<le> length h' \<and>
        (\<forall>b<length h. SRef b \<noteq> arr \<longrightarrow> h' ! b = h ! b) \<and>
        refs_rep h0 h' arr (edges (fst (edges_loop rt i s)))"
proof (induction rt i s arbitrary: h rule: edges_loop.induct)
  case (1 rt i s)
  note rel_len = s_edges_length_rep[OF "1.prems"(1,2)]
  show ?case
  proof (cases "edges_length (data s)")
    case (Inl e)
    with rel_len have "s_edges_length h dv = Inl e"
      by (auto elim: rel_sum.cases)
    with Inl "1.prems" show ?thesis
      by (subst s_edges_loop.simps, subst (1 2) edges_loop.simps) simp
  next
    case len: (Inr len)
    with rel_len obtain lenv where lenv: "s_edges_length h dv = Inr lenv" "tree h0 lenv = Some len"
      by (auto elim: rel_sum.cases)
    from lenv(2) "1.prems"(2) have "tree h lenv = Some len"
      by (rule tree_extends)
    then have less: "s_less rt circ h i lenv = js_less rt i len"
      by (rule s_less_rep)
    show ?thesis
    proof (cases "js_less rt i len")
      case (Inl e)
      with len lenv less "1.prems" show ?thesis
        by (subst s_edges_loop.simps, subst (1 2) edges_loop.simps) simp
    next
      case c: (Inr c)
      show ?thesis
      proof (cases c)
        case False
        with c len lenv less "1.prems" show ?thesis
          by (subst s_edges_loop.simps, subst (1 2) edges_loop.simps) simp
      next
        case True
        note rel_edge = s_render_edge_rep[OF "1.prems"(1,2), of i]
        show ?thesis
        proof (cases "render_edge (data s) i")
          case (Inl e)
          with rel_edge have "s_render_edge h dv i = Inl e"
            by (auto elim: rel_sum.cases)
          with Inl True c len lenv less "1.prems" show ?thesis
            by (subst s_edges_loop.simps, subst (1 2) edges_loop.simps) simp
        next
          case n: (Inr n)
          with rel_edge obtain obj where obj: "s_render_edge h dv i = Inr obj"
            "fields_rep h0 obj n"
            by (auto elim: rel_sum.cases)
          from push_alloc[OF "1.prems"(3) obj(2) "1.prems"(2)]
          obtain h1 where h1: "push (fst (alloc h obj)) arr (snd (alloc h obj)) = Inr h1"
            "extends h0 h1" "length h \<le> length h1"
            "\<forall>b<length h. SRef b \<noteq> arr \<longrightarrow> h1 ! b = h ! b"
            "refs_rep h0 h1 arr (edges s @ [n])"
            by blast
          let ?s = "s\<lparr>edges := edges s @ [n]\<rparr>"
          from "1.IH"[OF len c _ n, of h1] True "1.prems"(1) h1(2,5)
          obtain h2 where h2:
            "s_edges_loop rt circ dv arr (Suc i) h1 = Some (h2, snd (edges_loop rt (Suc i) ?s))"
            "extends h0 h2" "length h1 \<le> length h2"
            "\<forall>b<length h1. SRef b \<noteq> arr \<longrightarrow> h2 ! b = h1 ! b"
            "refs_rep h0 h2 arr (edges (fst (edges_loop rt (Suc i) ?s)))"
            by auto
          have pure: "edges_loop rt i s = edges_loop rt (Suc i) ?s"
            using len c True n by (subst edges_loop.simps) simp
          have st: "s_edges_loop rt circ dv arr i h = s_edges_loop rt circ dv arr (Suc i) h1"
            using lenv less c True obj(1) h1(1) by (subst s_edges_loop.simps) simp
          from h1(3,4) h2(3,4) have "\<forall>b<length h. SRef b \<noteq> arr \<longrightarrow> h2 ! b = h ! b"
            by auto
          with h1(3) h2 show ?thesis
            unfolding pure st by auto
        qed
      qed
    qed
  qed
qed

subsection \<open>The arrays built, read back\<close>

lemma nodes_loop_edges: "edges (fst (nodes_loop rt i s)) = edges s"
proof (induction rt i s rule: nodes_loop.induct)
  case (1 rt i s)
  then show ?case
    by (subst nodes_loop.simps) (auto split: sum.splits)
qed

lemma nodes_loop_data: "data (fst (nodes_loop rt i s)) = data s"
proof (induction rt i s rule: nodes_loop.induct)
  case (1 rt i s)
  then show ?case
    by (subst nodes_loop.simps) (auto split: sum.splits)
qed

lemma refs_rep_frame:
  assumes "refs_rep h0 h arr ns" and "length h \<le> length h'"
    and "\<forall>b<length h. b \<noteq> c \<longrightarrow> h' ! b = h ! b"
    and "arr \<noteq> SRef c" and "c < length h \<Longrightarrow> \<exists>rs. h ! c = CArr rs"
  shows "refs_rep h0 h' arr ns"
proof -
  from assms(1) obtain a rs where a: "arr = SRef a" "length h0 \<le> a" "a < length h"
    "h ! a = CArr rs" "list_all2 (obj_rep h0 h) rs ns"
    by (auto simp: refs_rep_def)
  have old: "obj_rep h0 h' r n'" if "obj_rep h0 h r n'" for r n'
  proof -
    from that obtain b where b: "r = SRef b" "b < length h" "fields_rep h0 (h ! b) n'"
      by (auto simp: obj_rep_def)
    with assms(5) have "b \<noteq> c" by (auto simp: fields_rep_def)
    with b assms(2,3) show ?thesis
      by (auto simp: obj_rep_def)
  qed
  from a(5) have "list_all2 (obj_rep h0 h') rs ns"
    by (rule list_all2_mono) (rule old)
  moreover from a assms(3,4) have "h' ! a = CArr rs" by auto
  ultimately show ?thesis
    using a assms(2) by (auto simp: refs_rep_def)
qed

lemma refs_rep_empty:
  "length h0 \<le> a \<Longrightarrow> a < length h \<Longrightarrow> h ! a = CArr [] \<Longrightarrow> refs_rep h0 h (SRef a) []"
  by (simp add: refs_rep_def)

lemma fields_rep_tree:
  assumes "fields_rep h0 (h ! b) n" and "b < length h" and "extends h0 h" and "length h0 \<le> m"
  shows "tree_of h (Suc m) (SRef b) = Some n"
proof -
  from assms(1) obtain kvs kts where k: "h ! b = CObj kvs" "n = JObj kts"
    "list_all2 (\<lambda>kv kt. fst kt = fst kv \<and> tree h0 (snd kv) = Some (snd kt)) kvs kts"
    by (auto simp: fields_rep_def)
  have "list_all2 (\<lambda>kv kt. fst kt = fst kv \<and> tree_of h m (snd kv) = Some (snd kt)) kvs kts"
    using k(3)
  proof (rule list_all2_mono)
    fix kv kt
    assume "fst kt = fst kv \<and> tree h0 (snd kv) = Some (snd kt)"
    then show "fst kt = fst kv \<and> tree_of h m (snd kv) = Some (snd kt)"
      using tree_of_frame_mono[OF _ assms(3,4), of "snd kv" "snd kt"]
      by (simp add: tree_def)
  qed
  then have "those (map (\<lambda>kv. map_option (Pair (fst kv)) (tree_of h m (snd kv))) kvs) = Some kts"
    by (induction rule: list_all2_induct) auto
  with k assms(2) show ?thesis by simp
qed

lemma refs_rep_tree:
  assumes "refs_rep h0 h arr ns" and "extends h0 h" and "length h0 \<le> m"
  shows "tree_of h (Suc (Suc m)) arr = Some (JArr ns)"
proof -
  from assms(1) obtain a rs where a: "arr = SRef a" "length h0 \<le> a" "a < length h"
    "h ! a = CArr rs" "list_all2 (obj_rep h0 h) rs ns"
    by (auto simp: refs_rep_def)
  have "list_all2 (\<lambda>r n. tree_of h (Suc m) r = Some n) rs ns"
    using a(5)
  proof (rule list_all2_mono)
    fix r n
    assume "obj_rep h0 h r n"
    then show "tree_of h (Suc m) r = Some n"
      using fields_rep_tree[OF _ _ assms(2,3)] by (auto simp: obj_rep_def)
  qed
  then have "those (map (tree_of h (Suc m)) rs) = Some ns"
    by (induction rule: list_all2_induct) auto
  with a show ?thesis by simp
qed

lemma extends_append: "extends h0 h \<Longrightarrow> extends h0 (h @ cs)"
  by (auto simp: extends_def nth_append)

lemma s_dataToGraph_refines:
  assumes "tree h dv = Some d"
  shows "\<exists>h'. extends h h' \<and>
           (case dataToGraph rt d incRelin of
              Inl e \<Rightarrow> s_dataToGraph rt circ h dv incRelin = Some (h', Inl e)
            | Inr g \<Rightarrow>
                \<exists>a. s_dataToGraph rt circ h dv incRelin = Some (h', Inr (SRef a)) \<and>
                    length h \<le> a \<and> a < length h' \<and>
                    tree h' (SRef a) = Some (js_of_render_graph g))"
proof -
  let ?na = "SRef (length h)" and ?ea = "SRef (Suc (length h))"
  let ?h2 = "h @ [CArr [], CArr []]"
  let ?s0 = "\<lparr>nodes = [], edges = [], data = d\<rparr>"
  have al: "fst (alloc h (CArr [])) = h @ [CArr []]" "snd (alloc h (CArr [])) = ?na"
    "fst (alloc (h @ [CArr []]) (CArr [])) = ?h2" "snd (alloc (h @ [CArr []]) (CArr [])) = ?ea"
    by (simp_all add: alloc_def)
  have e2: "extends h ?h2"
    by (rule extends_append) (rule extends_refl)
  have n2: "refs_rep h ?h2 ?na []"
    by (rule refs_rep_empty) (simp_all add: nth_append)
  have ed2: "refs_rep h ?h2 ?ea []"
    by (rule refs_rep_empty) (simp_all add: nth_append)
  obtain s1 e1 where n: "nodes_loop rt 0 ?s0 = (s1, e1)"
    by (cases "nodes_loop rt 0 ?s0")
  from s_nodes_loop_sim[of h dv ?s0 ?h2 ?na rt circ 0] assms e2 n2 n
  obtain h3 where h3: "s_nodes_loop rt circ dv ?na 0 ?h2 = Some (h3, e1)"
    "extends h h3" "length ?h2 \<le> length h3"
    "\<forall>b<length ?h2. SRef b \<noteq> ?na \<longrightarrow> h3 ! b = ?h2 ! b"
    "refs_rep h h3 ?na (nodes s1)"
    by auto
  show ?thesis
  proof (cases e1)
    case (Some e)
    with n have "dataToGraph rt d incRelin = Inl e"
      by (simp add: dataToGraph_def dataToGraph_run_def)
    moreover from Some h3(1) have "s_dataToGraph rt circ h dv incRelin = Some (h3, Inl e)"
      by (simp add: s_dataToGraph_def Let_def al)
    ultimately show ?thesis
      using h3(2) by auto
  next
    case None
    from n have d1: "data s1 = d"
      using nodes_loop_data[of rt 0 ?s0] by simp
    from n have ed1: "edges s1 = []"
      using nodes_loop_edges[of rt 0 ?s0] by simp
    from h3(3,4) have c3: "h3 ! Suc (length h) = CArr []"
      by (simp add: nth_append)
    from h3(3) have ed3: "refs_rep h h3 ?ea (edges s1)"
      unfolding ed1 by (intro refs_rep_empty c3) simp_all
    obtain s2 e2' where e: "edges_loop rt 0 s1 = (s2, e2')"
      by (cases "edges_loop rt 0 s1")
    from s_edges_loop_sim[of h dv s1 h3 ?ea rt circ 0] assms d1 h3(2) ed3 e
    obtain h4 where h4: "s_edges_loop rt circ dv ?ea 0 h3 = Some (h4, e2')"
      "extends h h4" "length h3 \<le> length h4"
      "\<forall>b<length h3. SRef b \<noteq> ?ea \<longrightarrow> h4 ! b = h3 ! b"
      "refs_rep h h4 ?ea (edges s2)"
      by auto
    show ?thesis
    proof (cases e2')
      case (Some e)
      with n None e have "dataToGraph rt d incRelin = Inl e"
        by (simp add: dataToGraph_def dataToGraph_run_def)
      moreover from Some None h3(1) h4(1)
      have "s_dataToGraph rt circ h dv incRelin = Some (h4, Inl e)"
        by (simp add: s_dataToGraph_def Let_def al)
      ultimately show ?thesis
        using h4(2) by auto
    next
      case None2: None
      let ?g = "\<lparr>nodes = nodes s2, edges = edges s2\<rparr>"
      let ?c = "CObj [(''nodes'', ?na), (''edges'', ?ea)]"
      let ?h5 = "h4 @ [?c]"
      from n None e None2 have pure: "dataToGraph rt d incRelin = Inr ?g"
        by (simp add: dataToGraph_def dataToGraph_run_def)
      from None None2 h3(1) h4(1)
      have st: "s_dataToGraph rt circ h dv incRelin = Some (?h5, Inr (SRef (length h4)))"
        by (simp add: s_dataToGraph_def Let_def al alloc_def)
      have ns2: "nodes s2 = nodes s1"
        using edges_loop_nodes[of rt 0 s1] e by simp
      have n4: "refs_rep h h4 ?na (nodes s2)"
        unfolding ns2 using h3(5) h4(3)
      proof (rule refs_rep_frame)
        show "\<forall>b<length h3. b \<noteq> Suc (length h) \<longrightarrow> h4 ! b = h3 ! b"
          using h4(4) by simp
        show "?na \<noteq> SRef (Suc (length h))" by simp
        show "\<exists>rs. h3 ! Suc (length h) = CArr rs"
          using c3 by simp
      qed
      have e5: "extends h ?h5"
        using h4(2) by (rule extends_append)
      have n5: "refs_rep h ?h5 ?na (nodes s2)"
        using n4
      proof (rule refs_rep_frame)
        show "length h4 \<le> length ?h5" by simp
        show "\<forall>b<length h4. b \<noteq> length h4 \<longrightarrow> ?h5 ! b = h4 ! b"
          by (simp add: nth_append)
        show "?na \<noteq> SRef (length h4)"
          using h3(3) h4(3) by simp
        show "length h4 < length h4 \<Longrightarrow> \<exists>rs. h4 ! length h4 = CArr rs" by simp
      qed
      have ed5: "refs_rep h ?h5 ?ea (edges s2)"
        using h4(5)
      proof (rule refs_rep_frame)
        show "length h4 \<le> length ?h5" by simp
        show "\<forall>b<length h4. b \<noteq> length h4 \<longrightarrow> ?h5 ! b = h4 ! b"
          by (simp add: nth_append)
        show "?ea \<noteq> SRef (length h4)"
          using h3(3) h4(3) by simp
        show "length h4 < length h4 \<Longrightarrow> \<exists>rs. h4 ! length h4 = CArr rs" by simp
      qed
      from h3(3) h4(3) obtain m where m: "length h4 = Suc (Suc m)" "length h \<le> m"
        by (cases "length h4"; cases "length h4 - 1") auto
      have "tree ?h5 (SRef (length h4)) = Some (js_of_render_graph ?g)"
        using refs_rep_tree[OF n5 e5 m(2)] refs_rep_tree[OF ed5 e5 m(2)] m(1)
        by (simp add: tree_def js_of_render_graph_def del: tree_of.simps(7))
          (simp add: nth_append)
      with pure st e5 h3(3) h4(3) show ?thesis
        by (intro exI[of _ ?h5]) simp
    qed
  qed
qed

section \<open>Properties of the translator\<close>




text \<open>
  C2. The specification expects thirteen nodes and thirteen edges from the sample
  payload, with node 0 of type \<^verbatim>\<open>input\<close>. The call of line 172 passes \<^verbatim>\<open>sampleData\<close>
  itself, which has no property \<^verbatim>\<open>nodes\<close>: it throws, and the component has no
  state. Given the graph inside the payload, the translator returns thirteen nodes
  and thirteen edges, but node 0 has the type \<^verbatim>\<open>empty\<close> and the whole operation as
  its title, because the payload's operations carry no \<^verbatim>\<open>kind\<close>; node 7 is
  \<^verbatim>\<open>empty\<close> with the title \<^verbatim>\<open>"Add"\<close>.
\<close>

theorem sampleData_not_translated:
  "exGraph rt = Inl TypeError \<and> App_init rt = Inl TypeError \<and>
   (case dataToGraph rt sampleData_graph True of
      Inl e \<Rightarrow> False
    | Inr r \<Rightarrow>
        length (nodes r) = 13 \<and> length (edges r) = 13 \<and>
        nodes r ! 0 =
          JObj [(''id'', JNum 0),
                (''title'', JStr (''{'' @ [CHR 0x22] @ ''InputCiphertext'' @ [CHR 0x22] @ '':0}'')),
                (''type'', JStr ''empty'')] \<and>
        nodes r ! 7 =
          JObj [(''id'', JNum 7),
                (''title'', JStr ([CHR 0x22] @ ''Add'' @ [CHR 0x22])),
                (''type'', JStr ''empty'')])"
  by code_simp

text \<open>
  C3. The specification wants a node of type \<^verbatim>\<open>input\<close> for every \<open>InputCiphertext\<close>
  operation. An operation as the payload of line 171 writes it (and as the
  specification's interface section does), \<^verbatim>\<open>{"InputCiphertext": slot}\<close>, has no
  property \<^verbatim>\<open>kind\<close>: in every graph, at every index and for every slot, the
  translator pushes for it a node of type \<^verbatim>\<open>empty\<close> titled with the whole operation,
  and that is the node a returned graph has there. It is the defect of C2, seen at
  one node.
\<close>

theorem payload_input_rendered_empty:
  "node_operation d i = Inr (JObj [(''InputCiphertext'', JNum slot)]) \<longrightarrow>
   render_node rt d i =
     Inr (JObj [(''id'', JNum (int i)),
                (''title'', JSON_stringify rt (JObj [(''InputCiphertext'', JNum slot)])),
                (''type'', JStr ''empty'')]) \<and>
   (\<forall>r. dataToGraph rt d incRelin = Inr r \<and> i < length (nodes r) \<longrightarrow>
      get_prop (nodes r ! i) ''type'' = Inr (JStr ''empty''))"
proof (intro impI conjI allI)
  assume a: "node_operation d i = Inr (JObj [(''InputCiphertext'', JNum slot)])"
  then show n: "render_node rt d i =
     Inr (JObj [(''id'', JNum (int i)),
                (''title'', JSON_stringify rt (JObj [(''InputCiphertext'', JNum slot)])),
                (''type'', JStr ''empty'')])"
    by (simp add: render_node_def)
  fix r
  assume "dataToGraph rt d incRelin = Inr r \<and> i < length (nodes r)"
  then have "dataToGraph rt d incRelin = Inr r" and "i < length (nodes r)"
    by simp_all
  then have "render_node rt d i = Inr (nodes r ! i)"
    by (rule dataToGraph_nth)
  with n show "get_prop (nodes r ! i) ''type'' = Inr (JStr ''empty'')"
    by simp
qed

theorem payload_input_rendered_empty_witness:
  "\<forall>rt. \<exists>r. dataToGraph rt sampleData_graph True = Inr r \<and>
          get_prop (nodes r ! 0) ''type'' = Inr (JStr ''empty'') \<and>
          get_prop (nodes r ! 3) ''type'' = Inr (JStr ''empty'')"
proof (intro allI)
  fix rt
  have o: "node_operation sampleData_graph 0 = Inr (JObj [(''InputCiphertext'', JNum 0)])"
    "node_operation sampleData_graph 3 = Inr (JObj [(''InputCiphertext'', JNum 3)])"
    by (simp_all add: node_operation_def sampleData_graph_def)
  have r: "dataToGraph rt sampleData_graph True = Inr (sample_exGraph rt) \<and>
           3 < length (nodes (sample_exGraph rt))"
    by code_simp
  then have "0 < length (nodes (sample_exGraph rt))"
    by linarith
  with r o(1) payload_input_rendered_empty[of sampleData_graph 0 0 rt True]
  have "get_prop (nodes (sample_exGraph rt) ! 0) ''type'' = Inr (JStr ''empty'')"
    by blast
  moreover from r o(2) payload_input_rendered_empty[of sampleData_graph 3 3 rt True]
  have "get_prop (nodes (sample_exGraph rt) ! 3) ''type'' = Inr (JStr ''empty'')"
    by blast
  ultimately show "\<exists>r. dataToGraph rt sampleData_graph True = Inr r \<and>
          get_prop (nodes r ! 0) ''type'' = Inr (JStr ''empty'') \<and>
          get_prop (nodes r ! 3) ''type'' = Inr (JStr ''empty'')"
    using r by blast
qed

text \<open>
  C4. For every graph of the declared type, the translator returns as many nodes as the
  graph has and as many edges as the graph has, and the \<open>i\<close>-th returned edge carries
  the source index, the target index and the role of the \<open>i\<close>-th edge of the graph.
\<close>

theorem dataToGraph_edges_one_to_one:
  "\<exists>r. dataToGraph rt (js_of_graph g) incRelin = Inr r \<and>
       length (nodes r) = length (fhe_nodes g) \<and>
       length (edges r) = length (fhe_edges g) \<and>
       (\<forall>i<length (fhe_edges g).
          edges r ! i =
            (case fhe_edges g ! i of
               (s, t, role) \<Rightarrow>
                 JObj [(''source'', JNum s), (''target'', JNum t),
                       (''type'', js_of_EdgeType role)]))"
  by (simp add: dataToGraph_typed render_edge_typed)

theorem dataToGraph_edges_one_to_one_witness:
  "\<forall>rt. \<exists>r. dataToGraph rt (js_of_graph sampleGraph) True = Inr r \<and>
       length (nodes r) = 13 \<and> length (edges r) = 13 \<and>
       edges r ! 6 = JObj [(''source'', JNum 12), (''target'', JNum 7), (''type'', JStr ''Left'')]"
proof (intro allI)
  fix rt
  from dataToGraph_edges_one_to_one[of rt sampleGraph True]
  obtain r where r: "dataToGraph rt (js_of_graph sampleGraph) True = Inr r"
    "length (nodes r) = length (fhe_nodes sampleGraph)"
    "length (edges r) = length (fhe_edges sampleGraph)"
    "\<forall>i<length (fhe_edges sampleGraph).
          edges r ! i =
            (case fhe_edges sampleGraph ! i of
               (s, t, role) \<Rightarrow>
                 JObj [(''source'', JNum s), (''target'', JNum t),
                       (''type'', js_of_EdgeType role)])"
    by blast
  have "(6::nat) < length (fhe_edges sampleGraph)"
    by (simp add: sampleGraph_def)
  with r(4) have "edges r ! 6 =
            (case fhe_edges sampleGraph ! 6 of
               (s, t, role) \<Rightarrow>
                 JObj [(''source'', JNum s), (''target'', JNum t),
                       (''type'', js_of_EdgeType role)])"
    by blast
  then have "edges r ! 6 =
      JObj [(''source'', JNum 12), (''target'', JNum 7), (''type'', JStr ''Left'')]"
    by (simp add: sampleGraph_def)
  with r(1,2,3) show "\<exists>r. dataToGraph rt (js_of_graph sampleGraph) True = Inr r \<and>
       length (nodes r) = 13 \<and> length (edges r) = 13 \<and>
       edges r ! 6 = JObj [(''source'', JNum 12), (''target'', JNum 7), (''type'', JStr ''Left'')]"
    by (simp add: sampleGraph_def)
qed

text \<open>
  C10. The result of the translator is the same for \<^verbatim>\<open>incRelin = true\<close> and
  \<^verbatim>\<open>incRelin = false\<close>, on every input.
\<close>

theorem dataToGraph_ignores_incRelin: "dataToGraph rt g True = dataToGraph rt g False"
  by (simp add: dataToGraph_def dataToGraph_run_def)

theorem dataToGraph_ignores_incRelin_witness:
  "\<forall>rt. dataToGraph rt sampleData False = Inl TypeError"
proof (intro allI)
  fix rt
  have "dataToGraph rt sampleData True = Inl TypeError"
    by code_simp
  then show "dataToGraph rt sampleData False = Inl TypeError"
    using dataToGraph_ignores_incRelin[of rt sampleData] by simp
qed

text \<open>
  C8: the translator can be called again with the same input for the same output, it
  does not change its input, and it has no side effect. On the store: let \<open>dv\<close> be any
  value of a store \<open>h\<close> that is not circular, \<open>d\<close> its tree (a graph of the declared
  type is one, \<open>js_of_graph g\<close>). Then the call returns, and so does a second call on
  the store the first one leaves; every cell that existed before the first call is
  unchanged after each of them, the second call changes no cell of the first
  (the calls only allocate), and the input stands for the same tree throughout.
  Both calls throw the same exception, or return references to two distinct new
  objects that stand for the same tree, the result of the value-level translator;
  the second call leaves the result of the first as it was.
\<close>

theorem dataToGraph_store_repeatable:
  assumes "tree h dv = Some d"
  shows "\<exists>h1 h2 r1 r2.
           s_dataToGraph rt circ h dv incRelin = Some (h1, r1) \<and>
           s_dataToGraph rt circ h1 dv incRelin = Some (h2, r2) \<and>
           (\<forall>a<length h. h1 ! a = h ! a \<and> h2 ! a = h ! a) \<and>
           (\<forall>a<length h1. h2 ! a = h1 ! a) \<and>
           tree h1 dv = Some d \<and> tree h2 dv = Some d \<and>
           (case dataToGraph rt d incRelin of
              Inl e \<Rightarrow> r1 = Inl e \<and> r2 = Inl e
            | Inr g \<Rightarrow>
                \<exists>x y. r1 = Inr (SRef x) \<and> r2 = Inr (SRef y) \<and> x \<noteq> y \<and>
                      tree h1 (SRef x) = Some (js_of_render_graph g) \<and>
                      tree h2 (SRef x) = Some (js_of_render_graph g) \<and>
                      tree h2 (SRef y) = Some (js_of_render_graph g))"
proof -
  from s_dataToGraph_refines[OF assms, where rt = rt and circ = circ and incRelin = incRelin]
  obtain h1 where h1: "extends h h1"
    "case dataToGraph rt d incRelin of
       Inl e \<Rightarrow> s_dataToGraph rt circ h dv incRelin = Some (h1, Inl e)
     | Inr g \<Rightarrow>
         \<exists>a. s_dataToGraph rt circ h dv incRelin = Some (h1, Inr (SRef a)) \<and>
             length h \<le> a \<and> a < length h1 \<and>
             tree h1 (SRef a) = Some (js_of_render_graph g)"
    by blast
  from assms h1(1) have t1: "tree h1 dv = Some d"
    by (rule tree_extends)
  from s_dataToGraph_refines[OF t1, where rt = rt and circ = circ and incRelin = incRelin]
  obtain h2 where h2: "extends h1 h2"
    "case dataToGraph rt d incRelin of
       Inl e \<Rightarrow> s_dataToGraph rt circ h1 dv incRelin = Some (h2, Inl e)
     | Inr g \<Rightarrow>
         \<exists>a. s_dataToGraph rt circ h1 dv incRelin = Some (h2, Inr (SRef a)) \<and>
             length h1 \<le> a \<and> a < length h2 \<and>
             tree h2 (SRef a) = Some (js_of_render_graph g)"
    by blast
  from t1 h2(1) have t2: "tree h2 dv = Some d"
    by (rule tree_extends)
  from h1(1) h2(1) have fr: "\<forall>a<length h. h1 ! a = h ! a \<and> h2 ! a = h ! a"
    "\<forall>a<length h1. h2 ! a = h1 ! a"
    by (auto simp: extends_def)
  show ?thesis
  proof (cases "dataToGraph rt d incRelin")
    case (Inl e)
    with h1(2) h2(2) fr t1 t2 show ?thesis by simp
  next
    case (Inr g)
    with h1(2) obtain x where x: "s_dataToGraph rt circ h dv incRelin = Some (h1, Inr (SRef x))"
      "x < length h1" "tree h1 (SRef x) = Some (js_of_render_graph g)"
      by auto
    from Inr h2(2) obtain y where y: "s_dataToGraph rt circ h1 dv incRelin = Some (h2, Inr (SRef y))"
      "length h1 \<le> y" "tree h2 (SRef y) = Some (js_of_render_graph g)"
      by auto
    from x(3) h2(1) have "tree h2 (SRef x) = Some (js_of_render_graph g)"
      by (rule tree_extends)
    moreover from x(2) y(2) have "x \<noteq> y" by simp
    ultimately show ?thesis
      using Inr x y fr t1 t2 by simp
  qed
qed

text \<open>
  On the example store, whose value at address 5 is the graph of one input node and
  one edge: both calls return, the six cells are unchanged, and the two results are
  distinct objects with the same tree.
\<close>

theorem dataToGraph_store_repeatable_witness:
  "\<forall>rt circ.
     tree example_store (SRef 5) =
       Some (js_of_graph \<lparr>fhe_nodes = [\<lparr>operation = InputCiphertextOp 0\<rparr>],
                          fhe_edges = [(0, 0, Left)]\<rparr>) \<and>
     (\<exists>h1 h2 r1 r2.
        s_dataToGraph rt circ example_store (SRef 5) True = Some (h1, r1) \<and>
        s_dataToGraph rt circ h1 (SRef 5) True = Some (h2, r2) \<and>
        (\<forall>a<length example_store. h1 ! a = example_store ! a \<and> h2 ! a = example_store ! a) \<and>
        tree h2 (SRef 5) = tree example_store (SRef 5) \<and>
        (\<exists>x y. r1 = Inr (SRef x) \<and> r2 = Inr (SRef y) \<and> x \<noteq> y \<and>
           tree h2 (SRef x) = tree h2 (SRef y)))"
proof (intro allI)
  fix rt :: runtime and circ :: "store \<Rightarrow> nat \<Rightarrow> sval \<Rightarrow> error + bool"
  let ?d = "js_of_graph \<lparr>fhe_nodes = [\<lparr>operation = InputCiphertextOp 0\<rparr>],
                         fhe_edges = [(0, 0, Left)]\<rparr>"
  have t: "tree example_store (SRef 5) = Some ?d"
    by code_simp
  have ok: "\<exists>g. dataToGraph rt ?d True = Inr g"
    by (subst dataToGraph_typed) simp
  from dataToGraph_store_repeatable[OF t, where rt = rt and circ = circ and incRelin = True] ok t
  show "tree example_store (SRef 5) = Some ?d \<and>
     (\<exists>h1 h2 r1 r2.
        s_dataToGraph rt circ example_store (SRef 5) True = Some (h1, r1) \<and>
        s_dataToGraph rt circ h1 (SRef 5) True = Some (h2, r2) \<and>
        (\<forall>a<length example_store. h1 ! a = example_store ! a \<and> h2 ! a = example_store ! a) \<and>
        tree h2 (SRef 5) = tree example_store (SRef 5) \<and>
        (\<exists>x y. r1 = Inr (SRef x) \<and> r2 = Inr (SRef y) \<and> x \<noteq> y \<and>
           tree h2 (SRef x) = tree h2 (SRef y)))"
    by (auto simp del: tree_of.simps)
qed

section \<open>Properties of the handlers\<close>

text \<open>
  C5, as the specification states it: a line without an entry of its own sends
  \<^verbatim>\<open>currentGraph\<close> to the one example graph, the default. In a component whose example
  graph is the translation of the payload's graph, a click on line 2 leaves a graph
  that is not the example graph, and not the graph a click on line 3 leaves.
\<close>

theorem updateLine_fallback_counterexample:
  "\<forall>rt.
     currGraph (updateLine rt (sample_exGraph rt) 2 (initial_state (sample_exGraph rt))) \<noteq>
       sample_exGraph rt \<and>
     currGraph (updateLine rt (sample_exGraph rt) 2 (initial_state (sample_exGraph rt))) \<noteq>
       currGraph (updateLine rt (sample_exGraph rt) 3 (initial_state (sample_exGraph rt)))"
  by (intro allI) code_simp

text \<open>
  C5, amended. For every integer line number \<^verbatim>\<open>updateLine\<close> returns (it has no failing
  step), with \<^verbatim>\<open>selectedLine\<close> the line clicked; \<^verbatim>\<open>currentGraph\<close> is the example graph
  when the line is 1, and for every other line the two-node graph built for that
  line: a node of type \<^verbatim>\<open>empty\<close> titled \<^verbatim>\<open>line\<close> and the number as JavaScript prints
  it (its decimal numeral when it is a safe integer), with an edge to a node
  \<^verbatim>\<open>test_func\<close> of type \<^verbatim>\<open>problematic\<close>. The other fields keep their values.
\<close>

theorem updateLine_result:
  "selectedLine (updateLine rt exG line st) = line \<and>
   currGraph (updateLine rt exG line st) = (if line = 1 then exG else line_graph rt line) \<and>
   selected (updateLine rt exG line st) = selected st \<and>
   vertSize (updateLine rt exG line st) = vertSize st \<and>
   horSize (updateLine rt exG line st) = horSize st \<and>
   nodes (line_graph rt line) =
     [JObj [(''id'', JNum 1),
            (''title'', JStr (''line '' @ (if isSafeInteger line then decimal line
                                          else toString_unsafe rt line))),
            (''type'', JStr ''empty''), (''x'', JNum (- 10)), (''y'', JNum 0)],
      JObj [(''id'', JNum 2), (''title'', JStr ''test_func''), (''type'', JStr ''problematic''),
            (''x'', JNum 0), (''y'', JNum 0)]] \<and>
   edges (line_graph rt line) =
     [JObj [(''source'', JNum 1), (''target'', JNum 2), (''directed'', JBool True),
            (''arrowhead'', JStr ''normal'')]]"
  by (simp add: updateLine_def line_graph_def Number_toString_def)

theorem updateLine_result_witness:
  "\<forall>rt.
     selectedLine (updateLine rt (sample_exGraph rt) (- 7) (initial_state (sample_exGraph rt))) =
       - 7 \<and>
     nodes (currGraph
       (updateLine rt (sample_exGraph rt) (- 7) (initial_state (sample_exGraph rt)))) =
       [JObj [(''id'', JNum 1), (''title'', JStr ''line -7''), (''type'', JStr ''empty''),
              (''x'', JNum (- 10)), (''y'', JNum 0)],
        JObj [(''id'', JNum 2), (''title'', JStr ''test_func''), (''type'', JStr ''problematic''),
              (''x'', JNum 0), (''y'', JNum 0)]] \<and>
     nodes (currGraph (updateLine rt (sample_exGraph rt) (10 ^ 21)
                         (initial_state (sample_exGraph rt)))) ! 0 =
       JObj [(''id'', JNum 1), (''title'', JStr (''line '' @ toString_unsafe rt (10 ^ 21))),
             (''type'', JStr ''empty''), (''x'', JNum (- 10)), (''y'', JNum 0)] \<and>
     currGraph (updateLine rt (sample_exGraph rt) 1 (initial_state (sample_exGraph rt))) =
       sample_exGraph rt"
proof (intro allI)
  fix rt
  show "selectedLine (updateLine rt (sample_exGraph rt) (- 7) (initial_state (sample_exGraph rt))) =
       - 7 \<and>
     nodes (currGraph
       (updateLine rt (sample_exGraph rt) (- 7) (initial_state (sample_exGraph rt)))) =
       [JObj [(''id'', JNum 1), (''title'', JStr ''line -7''), (''type'', JStr ''empty''),
              (''x'', JNum (- 10)), (''y'', JNum 0)],
        JObj [(''id'', JNum 2), (''title'', JStr ''test_func''), (''type'', JStr ''problematic''),
              (''x'', JNum 0), (''y'', JNum 0)]] \<and>
     nodes (currGraph (updateLine rt (sample_exGraph rt) (10 ^ 21)
                         (initial_state (sample_exGraph rt)))) ! 0 =
       JObj [(''id'', JNum 1), (''title'', JStr (''line '' @ toString_unsafe rt (10 ^ 21))),
             (''type'', JStr ''empty''), (''x'', JNum (- 10)), (''y'', JNum 0)] \<and>
     currGraph (updateLine rt (sample_exGraph rt) 1 (initial_state (sample_exGraph rt))) =
       sample_exGraph rt"
    using updateLine_result[of rt "sample_exGraph rt" "- 7" "initial_state (sample_exGraph rt)"]
      updateLine_result[of rt "sample_exGraph rt" "10 ^ 21" "initial_state (sample_exGraph rt)"]
      updateLine_result[of rt "sample_exGraph rt" 1 "initial_state (sample_exGraph rt)"]
    by (simp add: isSafeInteger_def decimal_def dec_nat.simps)
qed

text \<open>
  C6. The specification wants every selection accepted, \<^verbatim>\<open>null\<close> included. Given
  \<^verbatim>\<open>null\<close>, the handler writes the state and then throws, reading \<^verbatim>\<open>nodes\<close> of \<^verbatim>\<open>null\<close>
  for \<^verbatim>\<open>console.log\<close>. Every selection that is an object is stored without an error,
  also one whose \<^verbatim>\<open>nodes\<close> is \<^verbatim>\<open>null\<close> or empty.
\<close>

theorem updateSelection_null_throws:
  "updateSelection None e st = (st\<lparr>selected := None\<rparr>, Inl TypeError) \<and>
   (\<exists>v. updateSelection (Some sel) e st = (st\<lparr>selected := Some sel\<rparr>, Inr v)) \<and>
   updateSelection (Some \<lparr>sel_nodes = Some [], sel_edges = None\<rparr>) e st =
     (st\<lparr>selected := Some \<lparr>sel_nodes = Some [], sel_edges = None\<rparr>\<rparr>, Inr JUndefined)"
  by (simp add: updateSelection_def first_selected_node_def split: option.splits list.splits)

text \<open>
  C7. With the example graph fixed, \<^verbatim>\<open>currentGraph\<close> after a click depends on the line
  clicked alone: clicking \<open>a\<close>, then \<open>b\<close>, then \<open>a\<close> leaves the graph the first click
  left, and two clicks on \<open>a\<close> from any two states leave the same graph.
\<close>

theorem updateLine_no_history:
  "currGraph (updateLine rt exG a (updateLine rt exG b (updateLine rt exG a st))) =
     currGraph (updateLine rt exG a st) \<and>
   currGraph (updateLine rt exG a st) = currGraph (updateLine rt exG a st')"
  by (simp add: updateLine_def)

theorem updateLine_no_history_witness:
  "\<forall>rt. currGraph (updateLine rt (sample_exGraph rt) 1
            (updateLine rt (sample_exGraph rt) 2
              (updateLine rt (sample_exGraph rt) 1 (initial_state (sample_exGraph rt))))) =
        sample_exGraph rt"
proof (intro allI)
  fix rt
  show "currGraph (updateLine rt (sample_exGraph rt) 1
            (updateLine rt (sample_exGraph rt) 2
              (updateLine rt (sample_exGraph rt) 1 (initial_state (sample_exGraph rt))))) =
        sample_exGraph rt"
    using updateLine_no_history[of rt "sample_exGraph rt" 1 2 "initial_state (sample_exGraph rt)"]
    by (simp add: updateLine_def)
qed

text \<open>
  C9. \<^verbatim>\<open>updateSelection\<close> writes \<^verbatim>\<open>selected\<close> and nothing else: \<^verbatim>\<open>selectedLine\<close>,
  \<^verbatim>\<open>currentGraph\<close> and the two pane sizes are as before, for every argument, also
  the one it throws on.
\<close>

theorem updateSelection_frame:
  "selectedLine (fst (updateSelection selection e st)) = selectedLine st \<and>
   currGraph (fst (updateSelection selection e st)) = currGraph st \<and>
   vertSize (fst (updateSelection selection e st)) = vertSize st \<and>
   horSize (fst (updateSelection selection e st)) = horSize st \<and>
   selected (fst (updateSelection selection e st)) = selection"
  by (simp add: updateSelection_def)

theorem updateSelection_frame_witness:
  "\<forall>rt.
     selectedLine (fst (updateSelection None JNull (initial_state (sample_exGraph rt)))) = 0 \<and>
     currGraph (fst (updateSelection None JNull (initial_state (sample_exGraph rt)))) =
       sample_exGraph rt"
proof (intro allI)
  fix rt
  show "selectedLine (fst (updateSelection None JNull (initial_state (sample_exGraph rt)))) = 0 \<and>
     currGraph (fst (updateSelection None JNull (initial_state (sample_exGraph rt)))) =
       sample_exGraph rt"
    using updateSelection_frame[of None JNull "initial_state (sample_exGraph rt)"]
    by (simp add: initial_state_def)
qed

section \<open>Further properties of the translator\<close>

text \<open>
  Every returned node carries its own index as \<^verbatim>\<open>id\<close>, on every input.
\<close>

theorem dataToGraph_id_is_index:
  "dataToGraph rt d incRelin = Inr r \<Longrightarrow> i < length (nodes r) \<Longrightarrow>
   get_prop (nodes r ! i) ''id'' = Inr (JNum (int i))"
proof -
  assume "dataToGraph rt d incRelin = Inr r" and "i < length (nodes r)"
  then have "render_node rt d i = Inr (nodes r ! i)"
    by (rule dataToGraph_nth)
  then show ?thesis
    by (rule render_node_id)
qed

theorem dataToGraph_id_is_index_witness:
  "\<forall>rt. get_prop (nodes (sample_exGraph rt) ! 12) ''id'' = Inr (JNum 12)"
proof (intro allI)
  fix rt
  have "dataToGraph rt sampleData_graph True = Inr (sample_exGraph rt) \<and>
        12 < length (nodes (sample_exGraph rt))"
    by code_simp
  then show "get_prop (nodes (sample_exGraph rt) ! 12) ''id'' = Inr (JNum 12)"
    using dataToGraph_id_is_index[of rt sampleData_graph True "sample_exGraph rt" 12] by simp
qed

text \<open>
  For a graph whose operations are written as the declared types write them,
  \<^verbatim>\<open>{kind: 'InputCiphertext', data: slot}\<close> and \<^verbatim>\<open>{kind: ...}\<close>, an input gets a node of
  type \<^verbatim>\<open>input\<close> titled with its slot as JavaScript prints the number (the decimal
  numeral of a safe integer), and every other operation a node of type \<^verbatim>\<open>empty\<close>.
\<close>

theorem dataToGraph_declared_kinds:
  "\<forall>i<length (fhe_nodes g).
      \<exists>r. dataToGraph rt (js_of_graph g) incRelin = Inr r \<and> i < length (nodes r) \<and>
          (case operation (fhe_nodes g ! i) of
             InputCiphertextOp slot \<Rightarrow>
               get_prop (nodes r ! i) ''type'' = Inr (JStr ''input'') \<and>
               get_prop (nodes r ! i) ''title'' =
                 Inr (JStr (if isSafeInteger slot then decimal slot
                            else toString_unsafe rt slot))
           | op \<Rightarrow> get_prop (nodes r ! i) ''type'' = Inr (JStr ''empty''))"
proof (intro allI impI)
  fix i assume i: "i < length (fhe_nodes g)"
  then show "\<exists>r. dataToGraph rt (js_of_graph g) incRelin = Inr r \<and> i < length (nodes r) \<and>
          (case operation (fhe_nodes g ! i) of
             InputCiphertextOp slot \<Rightarrow>
               get_prop (nodes r ! i) ''type'' = Inr (JStr ''input'') \<and>
               get_prop (nodes r ! i) ''title'' =
                 Inr (JStr (if isSafeInteger slot then decimal slot
                            else toString_unsafe rt slot))
           | op \<Rightarrow> get_prop (nodes r ! i) ''type'' = Inr (JStr ''empty''))"
    by (cases "operation (fhe_nodes g ! i)")
       (simp_all add: dataToGraph_typed render_node_typed Number_toString_def)
qed

theorem dataToGraph_declared_kinds_witness:
  "\<forall>rt. \<exists>r. dataToGraph rt (js_of_graph sampleGraph) True = Inr r \<and>
       get_prop (nodes r ! 3) ''type'' = Inr (JStr ''input'') \<and>
       get_prop (nodes r ! 3) ''title'' = Inr (JStr ''3'')"
proof (intro allI)
  fix rt
  have "(3::nat) < length (fhe_nodes sampleGraph)"
    by (simp add: sampleGraph_def)
  with dataToGraph_declared_kinds[of sampleGraph rt True]
  obtain r where r: "dataToGraph rt (js_of_graph sampleGraph) True = Inr r"
    "(case operation (fhe_nodes sampleGraph ! 3) of
        InputCiphertextOp slot \<Rightarrow>
          get_prop (nodes r ! 3) ''type'' = Inr (JStr ''input'') \<and>
          get_prop (nodes r ! 3) ''title'' =
            Inr (JStr (if isSafeInteger slot then decimal slot else toString_unsafe rt slot))
      | op \<Rightarrow> get_prop (nodes r ! 3) ''type'' = Inr (JStr ''empty''))"
    by blast
  from r(2) have "get_prop (nodes r ! 3) ''type'' = Inr (JStr ''input'') \<and>
      get_prop (nodes r ! 3) ''title'' = Inr (JStr ''3'')"
    by (simp add: sampleGraph_def isSafeInteger_def decimal_def dec_nat.simps)
  with r(1) show "\<exists>r. dataToGraph rt (js_of_graph sampleGraph) True = Inr r \<and>
       get_prop (nodes r ! 3) ''type'' = Inr (JStr ''input'') \<and>
       get_prop (nodes r ! 3) ''title'' = Inr (JStr ''3'')"
    by blast
qed

text \<open>
  On no input, whatever the runtime's conversions return, does a returned node have the
  type \<^verbatim>\<open>problematic\<close>: it is \<^verbatim>\<open>input\<close> or \<^verbatim>\<open>empty\<close>.
\<close>

theorem dataToGraph_never_problematic:
  "dataToGraph rt d incRelin = Inr r \<Longrightarrow> n \<in> set (nodes r) \<Longrightarrow>
   (get_prop n ''type'' = Inr (JStr ''input'') \<or> get_prop n ''type'' = Inr (JStr ''empty'')) \<and>
   get_prop n ''type'' \<noteq> Inr (JStr ''problematic'')"
proof -
  assume r: "dataToGraph rt d incRelin = Inr r" and n: "n \<in> set (nodes r)"
  from n obtain i where i: "i < length (nodes r)" "nodes r ! i = n"
    by (auto simp: in_set_conv_nth)
  from dataToGraph_nth[OF r i(1)] i(2) have "render_node rt d i = Inr n"
    by simp
  from render_node_type[OF this] show ?thesis
    by auto
qed

theorem dataToGraph_never_problematic_witness:
  "\<forall>rt. get_prop (nodes (sample_exGraph rt) ! 7) ''type'' \<noteq> Inr (JStr ''problematic'')"
proof (intro allI)
  fix rt
  have "dataToGraph rt sampleData_graph True = Inr (sample_exGraph rt) \<and>
        7 < length (nodes (sample_exGraph rt))"
    by code_simp
  then have "dataToGraph rt sampleData_graph True = Inr (sample_exGraph rt)"
    and "nodes (sample_exGraph rt) ! 7 \<in> set (nodes (sample_exGraph rt))"
    by simp_all
  then show "get_prop (nodes (sample_exGraph rt) ! 7) ''type'' \<noteq> Inr (JStr ''problematic'')"
    using dataToGraph_never_problematic[of rt sampleData_graph True "sample_exGraph rt"
        "nodes (sample_exGraph rt) ! 7"]
    by blast
qed

end
